theory Spec2Isabelle
  imports Complex_Main "HOL-Library.Word" "HOL-Library.Multiset" "HOL-Library.Product_Lexorder"
begin

section \<open>The intermediate cache of the generator (generator/intermediate\_data.hpp)\<close>

text \<open>
  The header holds three layers: \<open>detail::IndexFile\<close>, a table of (key, value) records
  that is buffered and appended when writing, and loaded whole and sorted when reading;
  \<open>OSMElementCache\<close>, length-prefixed payloads in one file with their offsets in an
  \<open>IndexFile\<close>; and three point storages that keep coordinates as two 32-bit integers.

  Files are byte lists. Fixed-width integers are words; raw memory written to a file
  (\<open>Write(&x, sizeof(x))\<close>) is the little-endian image of the packed fields, with the
  sizes the header asserts (8 bytes for \<open>LatLon\<close>, 16 for \<open>LatLonPos\<close>) and 16 for
  \<open>pair<uint64_t, uint64_t>\<close>; \<open>size_t\<close> is 64 bits wide. Fatal checks and
  pointer reads past the preloaded buffer are error values. Of the failures of the
  environment, the refused allocation in \<open>ReadAll\<close> is modelled (the header handles
  it); other allocations, the reads from and the writes to disk succeed.
\<close>

subsection \<open>Bytes and fixed-width integers\<close>

type_synonym byte = "8 word"
type_synonym u32 = "32 word"
type_synonym u64 = "64 word"
type_synonym i32 = "32 word"

text \<open>An \<open>i32\<close> is read through \<open>sint\<close>, a \<open>u32\<close> or \<open>u64\<close> through \<open>unat\<close>.\<close>

primrec le_bytes :: "nat \<Rightarrow> nat \<Rightarrow> byte list" where
  "le_bytes 0 x = []"
| "le_bytes (Suc n) x = of_nat (x mod 256) # le_bytes n (x div 256)"

fun le_value :: "byte list \<Rightarrow> nat" where
  "le_value [] = 0"
| "le_value (b # bs) = unat b + 256 * le_value bs"

definition u64_bytes :: "u64 \<Rightarrow> byte list" where
  "u64_bytes w = le_bytes 8 (unat w)"

definition bytes_u64 :: "byte list \<Rightarrow> u64" where
  "bytes_u64 bs = of_nat (le_value bs)"

definition u32_bytes :: "u32 \<Rightarrow> byte list" where
  "u32_bytes w = le_bytes 4 (unat w)"

definition bytes_u32 :: "byte list \<Rightarrow> u32" where
  "bytes_u32 bs = of_nat (le_value bs)"

subsection \<open>Errors and log lines\<close>

datatype error =
    CheckFailed string
  | AssertFailed string
  | Critical string
  | IndexOutOfRange
  | BadConversion

text \<open>
  \<open>CheckFailed\<close> is a failed \<open>CHECK_EQUAL\<close> and \<open>AssertFailed\<close> a failed
  \<open>ASSERT_LESS\<close>, each with the message of the macro call; \<open>Critical\<close> is
  \<open>LOG(LCRITICAL, ...)\<close>, which ends the process. \<open>IndexOutOfRange\<close> is a pointer
  read past the preloaded buffer of the element cache, and \<open>BadConversion\<close> is a double
  whose truncation is no \<open>int64_t\<close>; these two are undefined in C++.
\<close>

datatype log_line =
    Warning string u64
  | Error string u64

subsection \<open>The file collaborators\<close>

text \<open>
  Modelled from the spec: \<open>FileWriter\<close> (coding/file\_writer.hpp) is the sequential
  writer \<open>write(bytes)\<close>, \<open>pos()\<close>, \<open>seek(u64)\<close>. It starts on an empty file at
  position 0; a write puts the bytes at the position, over what is there and after
  zeros when the position is past the end, and moves the position behind them.
\<close>

record FileWriter =
  fw_data :: "byte list"
  fw_pos :: nat

definition FileWriter_open :: FileWriter where
  "FileWriter_open = \<lparr>fw_data = [], fw_pos = 0\<rparr>"

definition FileWriter_Pos :: "FileWriter \<Rightarrow> u64" where
  "FileWriter_Pos w = of_nat (fw_pos w)"

definition FileWriter_Seek :: "FileWriter \<Rightarrow> u64 \<Rightarrow> FileWriter" where
  "FileWriter_Seek w p = w\<lparr>fw_pos := unat p\<rparr>"

definition FileWriter_Write :: "FileWriter \<Rightarrow> byte list \<Rightarrow> FileWriter" where
  "FileWriter_Write w bs =
     (let padded = fw_data w @ replicate (fw_pos w - length (fw_data w)) 0
      in \<lparr>fw_data = take (fw_pos w) padded @ bs @ drop (fw_pos w + length bs) padded,
          fw_pos = fw_pos w + length bs\<rparr>)"

text \<open>
  Modelled from the spec: \<open>FileReader\<close> (coding/file\_reader.hpp) is the random reader
  \<open>read(offset, buf)\<close>, \<open>size()\<close> over the bytes of a file. A read gives the bytes
  of the file from the offset on and zeros where the file has none: the holes of a
  sparse file read back as zero (4.3.1), and in scenario S4 the record of id 6, which
  lies behind the end of the file that holds id 5 alone, reads as (0, 0). The
  memory-mapped reader of \<open>RawFilePointStorage\<close> is the same reader (4.3.1: the same
  meaning). No failure of a read is modelled; the result is a sum so that the callers
  pass a failure on as the source does.
\<close>

record FileReader =
  fr_data :: "byte list"

definition FileReader_open :: "byte list \<Rightarrow> FileReader" where
  "FileReader_open bs = \<lparr>fr_data = bs\<rparr>"

definition FileReader_Size :: "FileReader \<Rightarrow> u64" where
  "FileReader_Size r = of_nat (length (fr_data r))"

definition FileReader_Read :: "FileReader \<Rightarrow> nat \<Rightarrow> nat \<Rightarrow> error + byte list" where
  "FileReader_Read r pos n = Inr (take n (drop pos (fr_data r) @ replicate n 0))"

subsection \<open>The algorithms of the standard library\<close>

text \<open>
  \<open>std::sort\<close> with a comparator, here by insertion; \<open>std::lower_bound\<close> and
  \<open>std::upper_bound\<close> as the binary searches over a position and a length;
  \<open>std::equal_range\<close> as the pair of both. Positions are indices into the list.
\<close>

fun insert_sorted :: "('a \<Rightarrow> 'a \<Rightarrow> bool) \<Rightarrow> 'a \<Rightarrow> 'a list \<Rightarrow> 'a list" where
  "insert_sorted cmp x [] = [x]"
| "insert_sorted cmp x (y # ys) =
     (if cmp x y then x # y # ys else y # insert_sorted cmp x ys)"

definition std_sort :: "('a \<Rightarrow> 'a \<Rightarrow> bool) \<Rightarrow> 'a list \<Rightarrow> 'a list" where
  "std_sort cmp xs = foldr (insert_sorted cmp) xs []"

function lower_bound_loop :: "('a \<Rightarrow> 'k \<Rightarrow> bool) \<Rightarrow> 'a list \<Rightarrow> 'k \<Rightarrow> nat \<Rightarrow> nat \<Rightarrow> nat" where
  "lower_bound_loop cmp xs key first len =
     (if len = 0 then first
      else let half = len div 2; middle = first + half
           in if cmp (xs ! middle) key
              then lower_bound_loop cmp xs key (middle + 1) (len - half - 1)
              else lower_bound_loop cmp xs key first half)"
  by pat_completeness auto
termination
  by (relation "measure (\<lambda>(cmp, xs, key, first, len). len)") auto

declare lower_bound_loop.simps [simp del]

definition lower_bound :: "('a \<Rightarrow> 'k \<Rightarrow> bool) \<Rightarrow> 'a list \<Rightarrow> 'k \<Rightarrow> nat" where
  "lower_bound cmp xs key = lower_bound_loop cmp xs key 0 (length xs)"

function upper_bound_loop :: "('k \<Rightarrow> 'a \<Rightarrow> bool) \<Rightarrow> 'a list \<Rightarrow> 'k \<Rightarrow> nat \<Rightarrow> nat \<Rightarrow> nat" where
  "upper_bound_loop cmp xs key first len =
     (if len = 0 then first
      else let half = len div 2; middle = first + half
           in if cmp key (xs ! middle)
              then upper_bound_loop cmp xs key first half
              else upper_bound_loop cmp xs key (middle + 1) (len - half - 1))"
  by pat_completeness auto
termination
  by (relation "measure (\<lambda>(cmp, xs, key, first, len). len)") auto

declare upper_bound_loop.simps [simp del]

definition upper_bound :: "('k \<Rightarrow> 'a \<Rightarrow> bool) \<Rightarrow> 'a list \<Rightarrow> 'k \<Rightarrow> nat" where
  "upper_bound cmp xs key = upper_bound_loop cmp xs key 0 (length xs)"

definition equal_range ::
  "('a \<Rightarrow> 'k \<Rightarrow> bool) \<Rightarrow> ('k \<Rightarrow> 'a \<Rightarrow> bool) \<Rightarrow> 'a list \<Rightarrow> 'k \<Rightarrow> nat \<times> nat" where
  "equal_range cmp_ek cmp_ke xs key = (lower_bound cmp_ek xs key, upper_bound cmp_ke xs key)"

subsection \<open>detail::IndexFile\<close>

text \<open>
  \<open>TKey\<close> is \<open>uint64_t\<close>; \<open>TValue\<close> is \<open>uint64_t\<close>, the one instance the header
  makes. The record has the three members of the class; \<open>'f\<close> is \<open>TFile\<close>, a
  \<open>FileWriter\<close> when writing and a \<open>FileReader\<close> when reading.
\<close>

type_synonym TKey = u64
type_synonym TValue = u64
type_synonym TElement = "TKey \<times> TValue"

record 'f IndexFile =
  m_elements :: "TElement list"
  m_file :: 'f
  m_fileSize :: u64

definition kFlushCount :: nat where
  "kFlushCount = 1024"

definition sizeof_TElement :: nat where
  "sizeof_TElement = 16"

definition ElementComparator :: "TElement \<Rightarrow> TElement \<Rightarrow> bool" where
  "ElementComparator r1 r2 = (if fst r1 = fst r2 then snd r1 < snd r2 else fst r1 < fst r2)"

definition ElementComparator_ek :: "TElement \<Rightarrow> TKey \<Rightarrow> bool" where
  "ElementComparator_ek r1 r2 = (fst r1 < r2)"

definition ElementComparator_ke :: "TKey \<Rightarrow> TElement \<Rightarrow> bool" where
  "ElementComparator_ke r1 r2 = (r1 < fst r2)"

definition CheckedCast :: "u64 \<Rightarrow> error + nat" where
  "CheckedCast v =
     (if v < (-1) then Inr (unat v)
      else Inl (AssertFailed ''Value too long for memory address : ''))"

definition element_bytes :: "TElement \<Rightarrow> byte list" where
  "element_bytes e = u64_bytes (fst e) @ u64_bytes (snd e)"

definition elements_bytes :: "TElement list \<Rightarrow> byte list" where
  "elements_bytes es = concat (map element_bytes es)"

definition element_at :: "byte list \<Rightarrow> nat \<Rightarrow> TElement" where
  "element_at bs i =
     (bytes_u64 (take 8 (drop (sizeof_TElement * i) bs)),
      bytes_u64 (take 8 (drop (sizeof_TElement * i + 8) bs)))"

definition elements_of_bytes :: "nat \<Rightarrow> byte list \<Rightarrow> TElement list" where
  "elements_of_bytes n bs = map (element_at bs) [0..<n]"

definition IndexFile_open :: "'f \<Rightarrow> 'f IndexFile" where
  "IndexFile_open f = \<lparr>m_elements = [], m_file = f, m_fileSize = 0\<rparr>"

definition WriteAll :: "FileWriter IndexFile \<Rightarrow> FileWriter IndexFile" where
  "WriteAll st =
     (if m_elements st = [] then st
      else st\<lparr>m_file := FileWriter_Write (m_file st) (elements_bytes (m_elements st)),
              m_elements := []\<rparr>)"

text \<open>
  \<open>ReadAll\<close>: \<open>mem\<close> is the largest number of elements a \<open>resize\<close> is granted; a
  larger request throws, and the handler logs \<open>LCRITICAL\<close>. The \<open>LINFO\<close> lines are
  left out.
\<close>

definition ReadAll :: "nat \<Rightarrow> FileReader IndexFile \<Rightarrow> error + FileReader IndexFile" where
  "ReadAll mem st =
     (let st1 = st\<lparr>m_elements := [], m_fileSize := FileReader_Size (m_file st)\<rparr>
      in if m_fileSize st1 = 0 then Inr st1
         else if m_fileSize st1 mod of_nat sizeof_TElement \<noteq> 0
         then Inl (CheckFailed ''Damaged file.'')
         else
           (case CheckedCast (m_fileSize st1 div of_nat sizeof_TElement) of
              Inl e \<Rightarrow> Inl e
            | Inr n \<Rightarrow>
                if mem < n then Inl (Critical ''Insufficient memory for required offset map'')
                else
                  (case CheckedCast (m_fileSize st1) of
                     Inl e \<Rightarrow> Inl e
                   | Inr sz \<Rightarrow>
                       (case FileReader_Read (m_file st1) 0 sz of
                          Inl e \<Rightarrow> Inl e
                        | Inr bs \<Rightarrow>
                            Inr (st1\<lparr>m_elements :=
                                   std_sort ElementComparator (elements_of_bytes n bs)\<rparr>)))))"

definition Add :: "FileWriter IndexFile \<Rightarrow> TKey \<Rightarrow> TValue \<Rightarrow> FileWriter IndexFile" where
  "Add st k v =
     (let st1 = (if length (m_elements st) > kFlushCount then WriteAll st else st)
      in st1\<lparr>m_elements := m_elements st1 @ [(k, v)]\<rparr>)"

definition GetValueByKey :: "'f IndexFile \<Rightarrow> TKey \<Rightarrow> TValue option" where
  "GetValueByKey st key =
     (let it = lower_bound ElementComparator_ek (m_elements st) key
      in if it \<noteq> length (m_elements st) \<and> fst (m_elements st ! it) = key
         then Some (snd (m_elements st ! it))
         else None)"

text \<open>
  The visitor \<open>toDo\<close> takes a value and its own state and returns its answer and its new
  state. \<open>for_range\<close> is the loop over the positions of the range, as the values there.
\<close>

fun for_range :: "('v \<Rightarrow> 's \<Rightarrow> bool \<times> 's) \<Rightarrow> 'v list \<Rightarrow> 's \<Rightarrow> 's" where
  "for_range toDo [] s = s"
| "for_range toDo (v # vs) s =
     (case toDo v s of (stop, s') \<Rightarrow> if stop then s' else for_range toDo vs s')"

definition ForEachByKey :: "'f IndexFile \<Rightarrow> TKey \<Rightarrow> (TValue \<Rightarrow> 's \<Rightarrow> bool \<times> 's) \<Rightarrow> 's \<Rightarrow> 's" where
  "ForEachByKey st k toDo s =
     (case equal_range ElementComparator_ek ElementComparator_ke (m_elements st) k of
        (range_first, range_second) \<Rightarrow>
          for_range toDo (map snd (take (range_second - range_first) (drop range_first (m_elements st)))) s)"

text \<open>
  A run of the write side: the \<open>Add\<close> calls of a list in order, from a state on. Closing
  the writer and opening the same file for reading gives an \<open>IndexFile\<close> over the bytes
  written, with no elements yet.
\<close>

definition Add_all :: "FileWriter IndexFile \<Rightarrow> TElement list \<Rightarrow> FileWriter IndexFile" where
  "Add_all st es = foldl (\<lambda>st e. Add st (fst e) (snd e)) st es"

definition reopen_index :: "FileWriter IndexFile \<Rightarrow> FileReader IndexFile" where
  "reopen_index w = IndexFile_open (FileReader_open (fw_data (m_file w)))"

definition values_of_key :: "TKey \<Rightarrow> TElement list \<Rightarrow> TValue list" where
  "values_of_key k es = map snd (filter (\<lambda>e. fst e = k) es)"

subsection \<open>OSMElementCache\<close>

text \<open>
  The members of the class; \<open>'f\<close> is \<open>TStorage\<close> and \<open>TOffsetFile\<close>, a
  \<open>FileWriter\<close> in write mode and a \<open>FileReader\<close> in read mode. A value to cache is
  the byte sequence its own \<open>Write\<close> puts into the \<open>MemWriter\<close>, and a value read is
  the byte range the \<open>MemReader\<close> hands to its \<open>Read\<close>. \<open>ASSERT_LESS\<close> is taken as
  a check that ends the process, here and in \<open>CheckedCast\<close>; a build that compiles
  assertions out goes on past it, with the size cut to 32 bits.
\<close>

record 'f OSMElementCache =
  m_storage :: 'f
  m_offsets :: "'f IndexFile"
  m_name :: string
  m_data :: "byte list"
  m_preload :: bool

definition OSMElementCache_Write_open :: "string \<Rightarrow> bool \<Rightarrow> FileWriter OSMElementCache" where
  "OSMElementCache_Write_open name preload =
     \<lparr>m_storage = FileWriter_open, m_offsets = IndexFile_open FileWriter_open,
      m_name = name, m_data = [], m_preload = preload\<rparr>"

definition InitStorage_Read :: "FileReader OSMElementCache \<Rightarrow> error + FileReader OSMElementCache" where
  "InitStorage_Read c =
     (if \<not> m_preload c then Inr c
      else let sz = unat (FileReader_Size (m_storage c))
           in case FileReader_Read (m_storage c) 0 sz of
                Inl e \<Rightarrow> Inl e
              | Inr bs \<Rightarrow> Inr (c\<lparr>m_data := bs\<rparr>))"

text \<open>
  The constructor in read mode, over the bytes of the payload file and of the offsets
  file of that name.
\<close>

definition OSMElementCache_Read_open ::
  "string \<Rightarrow> bool \<Rightarrow> byte list \<Rightarrow> byte list \<Rightarrow> error + FileReader OSMElementCache" where
  "OSMElementCache_Read_open name preload storage_bytes offsets_bytes =
     InitStorage_Read
       \<lparr>m_storage = FileReader_open storage_bytes,
        m_offsets = IndexFile_open (FileReader_open offsets_bytes),
        m_name = name, m_data = [], m_preload = preload\<rparr>"

definition Write :: "FileWriter OSMElementCache \<Rightarrow> TKey \<Rightarrow> byte list \<Rightarrow> error + FileWriter OSMElementCache" where
  "Write c ident val =
     (let c1 = c\<lparr>m_offsets := Add (m_offsets c) ident (FileWriter_Pos (m_storage c))\<rparr>;
          c2 = c1\<lparr>m_data := val\<rparr>
      in if \<not> length (m_data c2) < 2 ^ 32 - 1 then Inl (AssertFailed [])
         else let sz = (of_nat (length (m_data c2)) :: u32);
                  s1 = FileWriter_Write (m_storage c2) (u32_bytes sz);
                  s2 = FileWriter_Write s1 (take (unat sz) (m_data c2))
              in Inr (c2\<lparr>m_storage := s2\<rparr>))"

text \<open>
  \<open>Read\<close> returns the bytes given to the decoder (\<open>None\<close> for the answer false), the
  lines logged, and the cache, whose buffer the read without preload has resized and
  filled. With preload the size and the payload are read through pointers into the
  buffer, which nothing keeps inside it.
\<close>

definition Read ::
  "FileReader OSMElementCache \<Rightarrow> TKey \<Rightarrow>
     error + (byte list option \<times> log_line list \<times> FileReader OSMElementCache)" where
  "Read c ident =
     (case GetValueByKey (m_offsets c) ident of
        None \<Rightarrow> Inr (None, [Warning ''Can't find offset in file'' ident], c)
      | Some pos \<Rightarrow>
          if m_preload c then
            (if unat pos + 4 \<le> length (m_data c) then
               (let valueSize = bytes_u32 (take 4 (drop (unat pos) (m_data c)));
                    offset = unat (pos + 4)
                in if offset + unat valueSize \<le> length (m_data c)
                   then Inr (Some (take (unat valueSize) (drop offset (m_data c))), [], c)
                   else Inl IndexOutOfRange)
             else Inl IndexOutOfRange)
          else
            (case FileReader_Read (m_storage c) (unat pos) 4 of
               Inl e \<Rightarrow> Inl e
             | Inr size_bytes \<Rightarrow>
                 (let valueSize = bytes_u32 size_bytes
                  in case FileReader_Read (m_storage c) (unat (pos + 4)) (unat valueSize) of
                       Inl e \<Rightarrow> Inl e
                     | Inr bs \<Rightarrow>
                         Inr (Some (take (unat valueSize) (drop 0 bs)), [], c\<lparr>m_data := bs\<rparr>))))"

definition SaveOffsets :: "FileWriter OSMElementCache \<Rightarrow> FileWriter OSMElementCache" where
  "SaveOffsets c = c\<lparr>m_offsets := WriteAll (m_offsets c)\<rparr>"

definition LoadOffsets :: "nat \<Rightarrow> FileReader OSMElementCache \<Rightarrow> error + FileReader OSMElementCache" where
  "LoadOffsets mem c =
     (case ReadAll mem (m_offsets c) of
        Inl e \<Rightarrow> Inl e
      | Inr ix \<Rightarrow> Inr (c\<lparr>m_offsets := ix\<rparr>))"

text \<open>
  Runs of the cache: the \<open>Write\<close> calls of a list in order, stopping at a failure; and
  the read side of a written cache, which is \<open>SaveOffsets\<close>, the constructor in read
  mode over the two files, and \<open>LoadOffsets\<close>.
\<close>

fun Write_all ::
  "FileWriter OSMElementCache \<Rightarrow> (TKey \<times> byte list) list \<Rightarrow> error + FileWriter OSMElementCache" where
  "Write_all c [] = Inr c"
| "Write_all c (w # ws) =
     (case Write c (fst w) (snd w) of Inl e \<Rightarrow> Inl e | Inr c' \<Rightarrow> Write_all c' ws)"

definition reopen_cache ::
  "nat \<Rightarrow> bool \<Rightarrow> FileWriter OSMElementCache \<Rightarrow> error + FileReader OSMElementCache" where
  "reopen_cache mem preload w =
     (let w' = SaveOffsets w
      in case OSMElementCache_Read_open (m_name w') preload
                (fw_data (m_storage w')) (fw_data (m_file (m_offsets w'))) of
           Inl e \<Rightarrow> Inl e
         | Inr c \<Rightarrow> LoadOffsets mem c)"

text \<open>
  Where the writes of a list put their records when the first goes to position \<open>pos\<close>:
  the payload file, the offsets recorded, and the first record of an id.
\<close>

definition record_bytes :: "byte list \<Rightarrow> byte list" where
  "record_bytes p = u32_bytes (of_nat (length p)) @ p"

fun records :: "(TKey \<times> byte list) list \<Rightarrow> byte list" where
  "records [] = []"
| "records (w # ws) = record_bytes (snd w) @ records ws"

fun layout :: "nat \<Rightarrow> (TKey \<times> byte list) list \<Rightarrow> TElement list" where
  "layout pos [] = []"
| "layout pos (w # ws) = (fst w, of_nat pos) # layout (pos + 4 + length (snd w)) ws"

fun find_first :: "nat \<Rightarrow> (TKey \<times> byte list) list \<Rightarrow> TKey \<Rightarrow> (nat \<times> byte list) option" where
  "find_first pos [] ident = None"
| "find_first pos (w # ws) ident =
     (if fst w = ident then Some (pos, snd w)
      else find_first (pos + 4 + length (snd w)) ws ident)"

subsection \<open>Doubles\<close>

text \<open>
  The arithmetic of \<open>double\<close> is not interpreted. A storage is given the operations it
  uses on a type \<open>'d\<close> of doubles: the product and the quotient of two doubles, the
  conversion of an \<open>int32_t\<close> to a double, the conversion of a double to \<open>int64_t\<close>
  (truncation; \<open>None\<close> where the truncated value is no \<open>int64_t\<close> and the conversion is
  undefined), and the constant \<open>kValueOrder = 1E+7\<close>. An \<open>int32_t\<close> converts to a
  double exactly, so its comparison with \<open>0.0\<close> is its comparison with 0.
\<close>

record 'd double_ops =
  d_mul :: "'d \<Rightarrow> 'd \<Rightarrow> 'd"
  d_div :: "'d \<Rightarrow> 'd \<Rightarrow> 'd"
  d_of_int32 :: "i32 \<Rightarrow> 'd"
  d_to_int64 :: "'d \<Rightarrow> u64 option"
  kValueOrder :: 'd

text \<open>
  The operations on the reals. They agree with the machine's where the machine is exact:
  on whole numbers and their products below \<open>2^53\<close>.
\<close>

definition exact_ops :: "real double_ops" where
  "exact_ops =
     \<lparr>d_mul = (*), d_div = (/), d_of_int32 = (\<lambda>v. real_of_int (sint v)),
      d_to_int64 = (\<lambda>x. let t = (if 0 \<le> x then \<lfloor>x\<rfloor> else \<lceil>x\<rceil>)
                         in if - (2 ^ 63) \<le> t \<and> t < 2 ^ 63 then Some (of_int t) else None),
      kValueOrder = 10000000\<rparr>"

subsection \<open>PointStorage and its records\<close>

record PointStorage =
  m_processedPoint :: u64

definition IncProcessedPoint :: "'a PointStorage_scheme \<Rightarrow> 'a PointStorage_scheme" where
  "IncProcessedPoint st = st\<lparr>m_processedPoint := m_processedPoint st + 1\<rparr>"

text \<open>
  \<open>LatLon\<close> and \<open>LatLonPos\<close>; the fields carry a prefix, since both structs name
  theirs \<open>lat\<close> and \<open>lon\<close>. Their images are the packed fields in order, 8 and 16
  bytes as the header asserts.
\<close>

record LatLon =
  ll_lat :: i32
  ll_lon :: i32

record LatLonPos =
  llp_pos :: u64
  llp_lat :: i32
  llp_lon :: i32

definition LatLon_bytes :: "LatLon \<Rightarrow> byte list" where
  "LatLon_bytes ll = u32_bytes (ll_lat ll) @ u32_bytes (ll_lon ll)"

definition LatLon_at :: "byte list \<Rightarrow> nat \<Rightarrow> LatLon" where
  "LatLon_at bs i =
     \<lparr>ll_lat = bytes_u32 (take 4 (drop (8 * i) bs)),
      ll_lon = bytes_u32 (take 4 (drop (8 * i + 4) bs))\<rparr>"

definition LatLonPos_bytes :: "LatLonPos \<Rightarrow> byte list" where
  "LatLonPos_bytes ll = u64_bytes (llp_pos ll) @ u32_bytes (llp_lat ll) @ u32_bytes (llp_lon ll)"

definition LatLonPos_of_bytes :: "byte list \<Rightarrow> LatLonPos" where
  "LatLonPos_of_bytes bs =
     \<lparr>llp_pos = bytes_u64 (take 8 bs),
      llp_lat = bytes_u32 (take 4 (drop 8 bs)),
      llp_lon = bytes_u32 (take 4 (drop 12 bs))\<rparr>"

text \<open>
  The first lines of every \<open>AddPoint\<close>: both products are converted to \<open>int64_t\<close>,
  narrowed to \<open>int32_t\<close>, and each narrowed value widened again must be the
  \<open>int64_t\<close>, the latitude checked first.
\<close>

definition encode_point :: "'d double_ops \<Rightarrow> 'd \<Rightarrow> 'd \<Rightarrow> error + LatLon" where
  "encode_point ops lat lng =
     (case d_to_int64 ops (d_mul ops lat (kValueOrder ops)) of
        None \<Rightarrow> Inl BadConversion
      | Some lat64 \<Rightarrow>
          (case d_to_int64 ops (d_mul ops lng (kValueOrder ops)) of
             None \<Rightarrow> Inl BadConversion
           | Some lng64 \<Rightarrow>
               (let ll = \<lparr>ll_lat = ucast lat64, ll_lon = ucast lng64\<rparr>
                in if (scast (ll_lat ll) :: u64) \<noteq> lat64
                   then Inl (CheckFailed ''Latitude is out of 32bit boundary!'')
                   else if (scast (ll_lon ll) :: u64) \<noteq> lng64
                   then Inl (CheckFailed ''Longtitude is out of 32bit boundary!'')
                   else Inr ll)))"

text \<open>
  The last lines of the dense \<open>GetPoint\<close>: a record other than (0, 0) is decoded, and
  (0, 0) logs an error and answers false.
\<close>

definition decode_point ::
  "'d double_ops \<Rightarrow> u64 \<Rightarrow> LatLon \<Rightarrow> ('d \<times> 'd) option \<times> log_line list" where
  "decode_point ops ident ll =
     (if ll_lat ll \<noteq> 0 \<or> ll_lon ll \<noteq> 0
      then (Some (d_div ops (d_of_int32 ops (ll_lat ll)) (kValueOrder ops),
                  d_div ops (d_of_int32 ops (ll_lon ll)) (kValueOrder ops)), [])
      else (None, [Error ''Node with id =  not found!'' ident]))"

subsection \<open>RawFilePointStorage\<close>

record 'f RawFilePointStorage = PointStorage +
  rf_file :: 'f

definition RawFile_Write_open :: "string \<Rightarrow> FileWriter RawFilePointStorage" where
  "RawFile_Write_open name = \<lparr>m_processedPoint = 0, rf_file = FileWriter_open\<rparr>"

definition RawFile_Read_open :: "byte list \<Rightarrow> FileReader RawFilePointStorage" where
  "RawFile_Read_open file_bytes = \<lparr>m_processedPoint = 0, rf_file = FileReader_open file_bytes\<rparr>"

definition RawFile_AddPoint ::
  "'d double_ops \<Rightarrow> FileWriter RawFilePointStorage \<Rightarrow> u64 \<Rightarrow> 'd \<Rightarrow> 'd \<Rightarrow>
     error + FileWriter RawFilePointStorage" where
  "RawFile_AddPoint ops st ident lat lng =
     (case encode_point ops lat lng of
        Inl e \<Rightarrow> Inl e
      | Inr ll \<Rightarrow>
          Inr (IncProcessedPoint
                 (st\<lparr>rf_file := FileWriter_Write (FileWriter_Seek (rf_file st) (ident * 8))
                                    (LatLon_bytes ll)\<rparr>)))"

definition RawFile_GetPoint ::
  "'d double_ops \<Rightarrow> FileReader RawFilePointStorage \<Rightarrow> u64 \<Rightarrow>
     error + (('d \<times> 'd) option \<times> log_line list)" where
  "RawFile_GetPoint ops st ident =
     (case FileReader_Read (rf_file st) (unat (ident * 8)) 8 of
        Inl e \<Rightarrow> Inl e
      | Inr bs \<Rightarrow> Inr (decode_point ops ident (LatLon_at bs 0)))"

subsection \<open>RawMemPointStorage\<close>

record 'f RawMemPointStorage = PointStorage +
  rm_file :: 'f
  rm_data :: "LatLon list"

definition kArraySize :: nat where
  "kArraySize = 0xFFFFFFFF"

definition RawMem_Write_open :: "string \<Rightarrow> FileWriter RawMemPointStorage" where
  "RawMem_Write_open name =
     \<lparr>m_processedPoint = 0, rm_file = FileWriter_open,
      rm_data = replicate kArraySize \<lparr>ll_lat = 0, ll_lon = 0\<rparr>\<rparr>"

definition RawMem_Read_open :: "byte list \<Rightarrow> error + FileReader RawMemPointStorage" where
  "RawMem_Read_open file_bytes =
     (case FileReader_Read (FileReader_open file_bytes) 0 (kArraySize * 8) of
        Inl e \<Rightarrow> Inl e
      | Inr bs \<Rightarrow>
          Inr \<lparr>m_processedPoint = 0, rm_file = FileReader_open file_bytes,
               rm_data = map (LatLon_at bs) [0..<kArraySize]\<rparr>)"

definition RawMem_DoneStorage_Write :: "FileWriter RawMemPointStorage \<Rightarrow> FileWriter RawMemPointStorage" where
  "RawMem_DoneStorage_Write st =
     st\<lparr>rm_file := FileWriter_Write (rm_file st) (concat (map LatLon_bytes (rm_data st)))\<rparr>"

text \<open>
  \<open>AddPoint\<close> and \<open>GetPoint\<close> index the vector with \<open>m_data[id]\<close>, which has no
  bound test. For an id past the array the source stores to, and loads from, the
  memory behind the array: such a store returns and leaves the array as it is
  (\<open>xs[i := v]\<close> is \<open>xs\<close> there), and such a load gives what lies behind the array,
  of which nothing is known (as of \<open>xs ! i\<close> there). Neither call aborts.
\<close>

definition RawMem_AddPoint ::
  "'d double_ops \<Rightarrow> FileWriter RawMemPointStorage \<Rightarrow> u64 \<Rightarrow> 'd \<Rightarrow> 'd \<Rightarrow>
     error + FileWriter RawMemPointStorage" where
  "RawMem_AddPoint ops st ident lat lng =
     (case encode_point ops lat lng of
        Inl e \<Rightarrow> Inl e
      | Inr ll \<Rightarrow>
          Inr (IncProcessedPoint
                 (st\<lparr>rm_data := (rm_data st)[unat ident := ll]\<rparr>)))"

definition RawMem_GetPoint ::
  "'d double_ops \<Rightarrow> FileReader RawMemPointStorage \<Rightarrow> u64 \<Rightarrow>
     error + (('d \<times> 'd) option \<times> log_line list)" where
  "RawMem_GetPoint ops st ident = Inr (decode_point ops ident (rm_data st ! unat ident))"

subsection \<open>MapFilePointStorage\<close>

record 'f MapFilePointStorage = PointStorage +
  mf_file :: 'f
  m_map :: "u64 \<rightharpoonup> (i32 \<times> i32)"

definition emplace :: "('k \<rightharpoonup> 'v) \<Rightarrow> 'k \<Rightarrow> 'v \<Rightarrow> ('k \<rightharpoonup> 'v)" where
  "emplace m k v = (case m k of None \<Rightarrow> m(k \<mapsto> v) | Some _ \<Rightarrow> m)"

definition MapFile_Write_open :: "string \<Rightarrow> FileWriter MapFilePointStorage" where
  "MapFile_Write_open name =
     \<lparr>m_processedPoint = 0, mf_file = FileWriter_open, m_map = Map.empty\<rparr>"

text \<open>
  The loop of \<open>InitStorage\<close> in read mode. The position is a natural number: it stays
  below the \<open>count\<close> of the source (here \<open>cnt\<close>), which is a \<open>uint64_t\<close>.
\<close>

function MapFile_InitStorage_loop ::
  "FileReader \<Rightarrow> nat \<Rightarrow> nat \<Rightarrow> (u64 \<rightharpoonup> (i32 \<times> i32)) \<Rightarrow> error + (u64 \<rightharpoonup> (i32 \<times> i32))" where
  "MapFile_InitStorage_loop file cnt pos m =
     (if pos < cnt then
        (case FileReader_Read file pos 16 of
           Inl e \<Rightarrow> Inl e
         | Inr bs \<Rightarrow>
             (let ll = LatLonPos_of_bytes bs
              in MapFile_InitStorage_loop file cnt (pos + 16)
                   (emplace m (llp_pos ll) (llp_lat ll, llp_lon ll))))
      else Inr m)"
  by pat_completeness auto
termination
  by (relation "measure (\<lambda>(file, cnt, pos, m). cnt - pos)") auto

declare MapFile_InitStorage_loop.simps [simp del]

definition MapFile_Read_open :: "byte list \<Rightarrow> error + FileReader MapFilePointStorage" where
  "MapFile_Read_open file_bytes =
     (let file = FileReader_open file_bytes; cnt = unat (FileReader_Size file)
      in case MapFile_InitStorage_loop file cnt 0 Map.empty of
           Inl e \<Rightarrow> Inl e
         | Inr m \<Rightarrow> Inr \<lparr>m_processedPoint = 0, mf_file = file, m_map = m\<rparr>)"

definition MapFile_AddPoint ::
  "'d double_ops \<Rightarrow> FileWriter MapFilePointStorage \<Rightarrow> u64 \<Rightarrow> 'd \<Rightarrow> 'd \<Rightarrow>
     error + FileWriter MapFilePointStorage" where
  "MapFile_AddPoint ops st ident lat lng =
     (case encode_point ops lat lng of
        Inl e \<Rightarrow> Inl e
      | Inr ll \<Rightarrow>
          Inr (IncProcessedPoint
                 (st\<lparr>mf_file := FileWriter_Write (mf_file st)
                        (LatLonPos_bytes \<lparr>llp_pos = ident, llp_lat = ll_lat ll, llp_lon = ll_lon ll\<rparr>)\<rparr>)))"

definition MapFile_GetPoint ::
  "'d double_ops \<Rightarrow> 'f MapFilePointStorage \<Rightarrow> u64 \<Rightarrow> ('d \<times> 'd) option" where
  "MapFile_GetPoint ops st ident =
     (case m_map st ident of
        None \<Rightarrow> None
      | Some i \<Rightarrow> Some (d_div ops (d_of_int32 ops (fst i)) (kValueOrder ops),
                       d_div ops (d_of_int32 ops (snd i)) (kValueOrder ops)))"

text \<open>
  The fixed-point value of a coordinate, \<open>trunc(x * 1e7)\<close> as the machine computes it and
  where it is an \<open>int64_t\<close>; and what it is for it to fit in \<open>int32_t\<close>.
\<close>

definition scaled :: "'d double_ops \<Rightarrow> 'd \<Rightarrow> u64 option" where
  "scaled ops x = d_to_int64 ops (d_mul ops x (kValueOrder ops))"

definition in_int32 :: "u64 \<Rightarrow> bool" where
  "in_int32 v = (- (2 ^ 31) \<le> sint v \<and> sint v < 2 ^ 31)"


text \<open>
  Runs of the write side of a point storage: the \<open>AddPoint\<close> calls of a list of points
  (id, latitude, longitude) in order, stopping at a failure.
\<close>

fun RawFile_AddPoint_all ::
  "'d double_ops \<Rightarrow> FileWriter RawFilePointStorage \<Rightarrow> (u64 \<times> 'd \<times> 'd) list \<Rightarrow>
     error + FileWriter RawFilePointStorage" where
  "RawFile_AddPoint_all ops st [] = Inr st"
| "RawFile_AddPoint_all ops st (p # ps) =
     (case RawFile_AddPoint ops st (fst p) (fst (snd p)) (snd (snd p)) of
        Inl e \<Rightarrow> Inl e
      | Inr st' \<Rightarrow> RawFile_AddPoint_all ops st' ps)"

fun RawMem_AddPoint_all ::
  "'d double_ops \<Rightarrow> FileWriter RawMemPointStorage \<Rightarrow> (u64 \<times> 'd \<times> 'd) list \<Rightarrow>
     error + FileWriter RawMemPointStorage" where
  "RawMem_AddPoint_all ops st [] = Inr st"
| "RawMem_AddPoint_all ops st (p # ps) =
     (case RawMem_AddPoint ops st (fst p) (fst (snd p)) (snd (snd p)) of
        Inl e \<Rightarrow> Inl e
      | Inr st' \<Rightarrow> RawMem_AddPoint_all ops st' ps)"

fun MapFile_AddPoint_all ::
  "'d double_ops \<Rightarrow> FileWriter MapFilePointStorage \<Rightarrow> (u64 \<times> 'd \<times> 'd) list \<Rightarrow>
     error + FileWriter MapFilePointStorage" where
  "MapFile_AddPoint_all ops st [] = Inr st"
| "MapFile_AddPoint_all ops st (p # ps) =
     (case MapFile_AddPoint ops st (fst p) (fst (snd p)) (snd (snd p)) of
        Inl e \<Rightarrow> Inl e
      | Inr st' \<Rightarrow> MapFile_AddPoint_all ops st' ps)"

text \<open>
  The read side of a written dense storage: the memory storage is destroyed, which
  writes its file, and constructed in read mode over that file; the raw file storage
  is constructed in read mode over the file written.
\<close>

definition RawMem_reopen :: "FileWriter RawMemPointStorage \<Rightarrow> error + FileReader RawMemPointStorage" where
  "RawMem_reopen w = RawMem_Read_open (fw_data (rm_file (RawMem_DoneStorage_Write w)))"

definition RawFile_reopen :: "FileWriter RawFilePointStorage \<Rightarrow> FileReader RawFilePointStorage" where
  "RawFile_reopen w = RawFile_Read_open (fw_data (rf_file w))"

definition MapFile_reopen :: "FileWriter MapFilePointStorage \<Rightarrow> error + FileReader MapFilePointStorage" where
  "MapFile_reopen w = MapFile_Read_open (fw_data (mf_file w))"

text \<open>
  A list is split at \<open>r\<close> by \<open>P\<close> when \<open>P\<close> holds before position \<open>r\<close> and nowhere from it on.
\<close>

definition split_at :: "('a \<Rightarrow> bool) \<Rightarrow> 'a list \<Rightarrow> nat \<Rightarrow> bool" where
  "split_at P xs r \<longleftrightarrow> r \<le> length xs \<and> (\<forall>i<r. P (xs ! i)) \<and> (\<forall>i. r \<le> i \<and> i < length xs \<longrightarrow> \<not> P (xs ! i))"


section \<open>Encoding\<close>

lemma FileReader_Read_inside:
  "pos + n \<le> length (fr_data r) \<Longrightarrow> FileReader_Read r pos n = Inr (take n (drop pos (fr_data r)))"
  by (simp add: FileReader_Read_def)

lemma length_le_bytes: "length (le_bytes n x) = n"
  by (induction n arbitrary: x) auto

lemma le_value_le_bytes: "le_value (le_bytes n x) = x mod 256 ^ n"
proof (induction n arbitrary: x)
  case 0 show ?case by simp
next
  case (Suc n)
  have "unat (of_nat (x mod 256) :: byte) = x mod 256"
    by (simp add: unat_of_nat)
  then show ?case using Suc by (simp add: mod_mult2_eq)
qed

lemma bytes_u64_u64_bytes: "bytes_u64 (u64_bytes w) = w"
proof -
  have "unat w < 2 ^ 64" using unsigned_less [of w, where ?'a = nat] by simp
  then have "unat w mod 256 ^ 8 = unat w" by simp
  then show ?thesis by (simp add: bytes_u64_def u64_bytes_def le_value_le_bytes)
qed

lemma bytes_u32_u32_bytes: "bytes_u32 (u32_bytes w) = w"
proof -
  have "unat w < 2 ^ 32" using unsigned_less [of w, where ?'a = nat] by simp
  then have "unat w mod 256 ^ 4 = unat w" by simp
  then show ?thesis by (simp add: bytes_u32_def u32_bytes_def le_value_le_bytes)
qed

lemma length_u64_bytes: "length (u64_bytes w) = 8"
  by (simp add: u64_bytes_def length_le_bytes)

lemma length_element_bytes: "length (element_bytes e) = 16"
  by (simp add: element_bytes_def length_u64_bytes)

lemma length_elements_bytes: "length (elements_bytes es) = 16 * length es"
  by (induction es) (auto simp: elements_bytes_def length_element_bytes)

lemma elements_bytes_Cons: "elements_bytes (e # es) = element_bytes e @ elements_bytes es"
  by (simp add: elements_bytes_def)

lemma elements_bytes_append: "elements_bytes (xs @ ys) = elements_bytes xs @ elements_bytes ys"
  by (simp add: elements_bytes_def)

lemma element_at_0: "element_at (element_bytes e @ bs) 0 = e"
  by (simp add: element_at_def element_bytes_def length_u64_bytes bytes_u64_u64_bytes)

lemma element_at_Suc: "element_at (element_bytes e @ bs) (Suc i) = element_at bs i"
  by (simp add: element_at_def sizeof_TElement_def length_element_bytes add.commute)

lemma elements_of_bytes_elements_bytes:
  "elements_of_bytes (length es) (elements_bytes es @ rest) = es"
proof (induction es)
  case Nil show ?case by (simp add: elements_of_bytes_def)
next
  case (Cons e es)
  have "map (element_at (element_bytes e @ elements_bytes es @ rest)) [0..<Suc (length es)]
      = e # map (element_at (elements_bytes es @ rest)) [0..<length es]"
    by (simp add: upt_conv_Cons map_Suc_upt [symmetric] element_at_0 element_at_Suc del: upt_Suc)
  then show ?case using Cons by (simp add: elements_of_bytes_def elements_bytes_Cons)
qed

section \<open>Sorting and searching\<close>

lemma mset_insert_sorted: "mset (insert_sorted cmp x xs) = add_mset x (mset xs)"
  by (induction xs) auto

lemma mset_std_sort: "mset (std_sort cmp xs) = mset xs"
  by (induction xs) (auto simp: std_sort_def mset_insert_sorted)

lemma ElementComparator_less: "ElementComparator r1 r2 \<longleftrightarrow> r1 < r2"
  by (cases r1; cases r2) (auto simp: ElementComparator_def)

lemma set_insert_sorted: "set (insert_sorted cmp x xs) = insert x (set xs)"
  by (induction xs) auto

lemma sorted_insert_sorted:
  "sorted xs \<Longrightarrow> sorted (insert_sorted ElementComparator x xs)"
  by (induction xs) (auto simp: set_insert_sorted ElementComparator_less intro: order.trans less_imp_le)

lemma sorted_std_sort: "sorted (std_sort ElementComparator xs)"
  by (induction xs) (auto simp: std_sort_def sorted_insert_sorted)

lemma std_sort_eq_sort: "std_sort ElementComparator xs = sort xs"
  by (rule properties_for_sort [symmetric]) (simp_all add: mset_std_sort sorted_std_sort)

lemma lower_bound_loop_split:
  assumes part: "\<And>i j. i < j \<Longrightarrow> j < length xs \<Longrightarrow> cmp (xs ! j) key \<Longrightarrow> cmp (xs ! i) key"
  shows "first + len \<le> length xs \<Longrightarrow> \<forall>i<first. cmp (xs ! i) key \<Longrightarrow>
    \<forall>i. first + len \<le> i \<and> i < length xs \<longrightarrow> \<not> cmp (xs ! i) key \<Longrightarrow>
    split_at (\<lambda>a. cmp a key) xs (lower_bound_loop cmp xs key first len)"
proof (induction len arbitrary: first rule: less_induct)
  case (less len)
  show ?case
  proof (cases "len = 0")
    case True
    with less.prems show ?thesis
      by (subst lower_bound_loop.simps) (simp add: split_at_def)
  next
    case False
    define half where "half = len div 2"
    define middle where "middle = first + half"
    have mid: "middle < length xs" "half < len"
      using False less.prems(1) by (auto simp: half_def middle_def)
    show ?thesis
    proof (cases "cmp (xs ! middle) key")
      case True
      have below: "\<forall>i<middle + 1. cmp (xs ! i) key"
      proof (intro allI impI)
        fix i assume "i < middle + 1"
        then consider "i = middle" | "i < middle" by linarith
        then show "cmp (xs ! i) key"
          using True part [of i middle] mid(1) by cases auto
      qed
      have "split_at (\<lambda>a. cmp a key) xs (lower_bound_loop cmp xs key (middle + 1) (len - half - 1))"
      proof (rule less.IH)
        show "len - half - 1 < len" using False by simp
        show "middle + 1 + (len - half - 1) \<le> length xs"
          using less.prems(1) mid(2) by (simp add: middle_def)
        show "\<forall>i<middle + 1. cmp (xs ! i) key" by (rule below)
        show "\<forall>i. middle + 1 + (len - half - 1) \<le> i \<and> i < length xs \<longrightarrow> \<not> cmp (xs ! i) key"
          using less.prems(3) mid(2) by (simp add: middle_def)
      qed
      with False True show ?thesis
        by (subst lower_bound_loop.simps) (simp add: half_def middle_def Let_def)
    next
      case notcmp: False
      have above: "\<forall>i. first + half \<le> i \<and> i < length xs \<longrightarrow> \<not> cmp (xs ! i) key"
      proof (intro allI impI)
        fix i assume i: "first + half \<le> i \<and> i < length xs"
        then consider "i = middle" | "middle < i" unfolding middle_def by linarith
        then show "\<not> cmp (xs ! i) key"
          using notcmp part [of middle i] i by cases auto
      qed
      have "split_at (\<lambda>a. cmp a key) xs (lower_bound_loop cmp xs key first half)"
      proof (rule less.IH)
        show "half < len" by (rule mid(2))
        show "first + half \<le> length xs" using mid(1) by (simp add: middle_def)
        show "\<forall>i<first. cmp (xs ! i) key" by (rule less.prems(2))
        show "\<forall>i. first + half \<le> i \<and> i < length xs \<longrightarrow> \<not> cmp (xs ! i) key" by (rule above)
      qed
      with False notcmp show ?thesis
        by (subst lower_bound_loop.simps) (simp add: half_def middle_def Let_def)
    qed
  qed
qed

lemma upper_bound_loop_lower:
  "upper_bound_loop cmp xs key first len = lower_bound_loop (\<lambda>a k. \<not> cmp k a) xs key first len"
proof (induction len arbitrary: first rule: less_induct)
  case (less len)
  show ?case
  proof (cases "len = 0")
    case True
    then show ?thesis
      by (subst upper_bound_loop.simps, subst lower_bound_loop.simps) simp
  next
    case False
    then have "len div 2 < len" "len - len div 2 - 1 < len" by auto
    then show ?thesis using False
      by (subst upper_bound_loop.simps, subst lower_bound_loop.simps)
        (simp add: Let_def less.IH)
  qed
qed

lemma split_at_take: "split_at P xs r \<Longrightarrow> take r xs = filter P xs"
proof -
  assume s: "split_at P xs r"
  have a: "filter P (take r xs) = take r xs"
    using s by (auto simp: split_at_def in_set_conv_nth intro!: filter_True)
  have b: "filter P (drop r xs) = []"
    using s by (auto simp: split_at_def in_set_conv_nth filter_empty_conv)
  have "filter P xs = filter P (take r xs @ drop r xs)" by simp
  also have "\<dots> = take r xs" using a b by (simp del: append_take_drop_id)
  finally show ?thesis by simp
qed

section \<open>Properties of IndexFile\<close>

lemma WriteAll_elements: "m_elements (WriteAll st) = []"
  by (simp add: WriteAll_def)

lemma WriteAll_empty: "m_elements st = [] \<Longrightarrow> WriteAll st = st"
  by (simp add: WriteAll_def)

subsection \<open>ReadAll on a file of known length\<close>

lemma unat_of_nat_u64: "L < 2 ^ 64 \<Longrightarrow> unat (of_nat L :: u64) = L"
  by (simp add: unat_of_nat)

lemma u64_size_facts:
  assumes "L < 2 ^ 64"
  shows "((of_nat L :: u64) = 0) = (L = 0)"
    and "((of_nat L :: u64) mod 16 = 0) = (L mod 16 = 0)"
    and "unat ((of_nat L :: u64) div 16) = L div 16"
proof -
  have u: "unat (of_nat L :: u64) = L" using assms by (rule unat_of_nat_u64)
  show "((of_nat L :: u64) = 0) = (L = 0)"
    using u by (metis unat_eq_zero)
  have "unat ((of_nat L :: u64) mod 16) = L mod 16"
    using u by (simp add: unat_mod)
  then show "((of_nat L :: u64) mod 16 = 0) = (L mod 16 = 0)"
    by (metis unat_eq_zero)
  show "unat ((of_nat L :: u64) div 16) = L div 16"
    using u by (simp add: unat_div)
qed

lemma CheckedCast_ok: "unat v < 2 ^ 64 - 1 \<Longrightarrow> CheckedCast v = Inr (unat v)"
proof -
  assume a: "unat v < 2 ^ 64 - 1"
  have "unat (- 1 :: u64) = 2 ^ 64 - 1" by (simp add: unsigned_minus_1_eq_mask mask_eq_exp_minus_1)
  then have "v < - 1" using a by (simp add: word_less_nat_alt)
  then show ?thesis by (simp add: CheckedCast_def)
qed

lemma ReadAll_eq:
  assumes L: "length (fr_data (m_file st)) < 2 ^ 64"
  shows "ReadAll mem st =
    (let L = length (fr_data (m_file st));
         st1 = st\<lparr>m_elements := [], m_fileSize := of_nat L\<rparr>
     in if L = 0 then Inr st1
        else if L mod 16 \<noteq> 0 then Inl (CheckFailed ''Damaged file.'')
        else if mem < L div 16 then Inl (Critical ''Insufficient memory for required offset map'')
        else Inr (st1\<lparr>m_elements := std_sort ElementComparator (elements_of_bytes (L div 16) (fr_data (m_file st)))\<rparr>))"
proof -
  define n where "n = length (fr_data (m_file st))"
  note f = u64_size_facts [OF L [folded n_def]]
  have u: "unat (of_nat n :: u64) = n" using L by (simp add: n_def unat_of_nat_u64)
  have c1: "CheckedCast (of_nat n div 16) = Inr (n div 16)"
    using L f(3) CheckedCast_ok [of "of_nat n div 16"] by (simp add: n_def)
  have c2: "n mod 16 = 0 \<Longrightarrow> CheckedCast (of_nat n) = Inr n"
  proof -
    assume m: "n mod 16 = 0"
    have "n \<noteq> 2 ^ 64 - 1" using m by auto
    then have "n < 2 ^ 64 - 1" using L by (simp add: n_def)
    then show ?thesis using CheckedCast_ok [of "of_nat n"] u by simp
  qed
  show ?thesis
    unfolding ReadAll_def FileReader_Size_def n_def [symmetric] Let_def
    using f(1,2) c1 c2
    by (simp add: sizeof_TElement_def FileReader_Read_inside n_def)
qed

subsection \<open>Lookups in sorted elements\<close>

lemma fst_mono_prod: "(a :: TElement) \<le> b \<Longrightarrow> fst a \<le> fst b"
  by (auto simp: less_eq_prod_def)

lemma lower_bound_sorted:
  assumes "sorted xs"
  shows "split_at (\<lambda>e. fst e < k) xs (lower_bound ElementComparator_ek xs k)"
proof -
  have "split_at (\<lambda>a. ElementComparator_ek a k) xs (lower_bound_loop ElementComparator_ek xs k 0 (length xs))"
  proof (rule lower_bound_loop_split)
    fix i j assume "i < j" "j < length xs" "ElementComparator_ek (xs ! j) k"
    moreover have "xs ! i \<le> xs ! j"
      using assms \<open>i < j\<close> \<open>j < length xs\<close> by (simp add: sorted_nth_mono)
    ultimately show "ElementComparator_ek (xs ! i) k"
      using fst_mono_prod [of "xs ! i" "xs ! j"] by (simp add: ElementComparator_ek_def)
  qed auto
  then show ?thesis by (simp add: lower_bound_def ElementComparator_ek_def)
qed

lemma upper_bound_sorted:
  assumes "sorted xs"
  shows "split_at (\<lambda>e. fst e \<le> k) xs (upper_bound ElementComparator_ke xs k)"
proof -
  have "split_at (\<lambda>a. \<not> ElementComparator_ke k a) xs
          (lower_bound_loop (\<lambda>a k. \<not> ElementComparator_ke k a) xs k 0 (length xs))"
  proof (rule lower_bound_loop_split)
    fix i j assume "i < j" "j < length xs" "\<not> ElementComparator_ke k (xs ! j)"
    moreover have "xs ! i \<le> xs ! j"
      using assms \<open>i < j\<close> \<open>j < length xs\<close> by (simp add: sorted_nth_mono)
    ultimately show "\<not> ElementComparator_ke k (xs ! i)"
      using fst_mono_prod [of "xs ! i" "xs ! j"] by (simp add: ElementComparator_ke_def)
  qed auto
  then show ?thesis
    by (simp add: upper_bound_def upper_bound_loop_lower ElementComparator_ke_def not_less)
qed

lemma filter_le_split:
  "sorted (xs :: TElement list) \<Longrightarrow>
   filter (\<lambda>e. fst e \<le> k) xs = filter (\<lambda>e. fst e < k) xs @ filter (\<lambda>e. fst e = k) xs"
proof (induction xs)
  case Nil show ?case by simp
next
  case (Cons x xs)
  have ge: "\<forall>y\<in>set xs. fst x \<le> fst y" using Cons.prems fst_mono_prod by auto
  show ?case
  proof (cases "fst x < k")
    case True
    then show ?thesis using Cons by auto
  next
    case False
    then have "filter (\<lambda>e. fst e < k) xs = []"
      using ge by (auto simp: filter_empty_conv)
    then show ?thesis using Cons False by auto
  qed
qed

lemma equal_range_slice:
  fixes k :: TKey
  assumes "sorted (xs :: TElement list)"
  defines "lo \<equiv> lower_bound ElementComparator_ek xs k"
    and "hi \<equiv> upper_bound ElementComparator_ke xs k"
  shows "take (hi - lo) (drop lo xs) = filter (\<lambda>e. fst e = k) xs"
    and "drop lo xs = filter (\<lambda>e. fst e = k) xs @ drop hi xs"
    and "lo \<le> hi"
proof -
  have l: "split_at (\<lambda>e. fst e < k) xs lo" unfolding lo_def by (rule lower_bound_sorted [OF assms(1)])
  have h: "split_at (\<lambda>e. fst e \<le> k) xs hi" unfolding hi_def by (rule upper_bound_sorted [OF assms(1)])
  have tl: "take lo xs = filter (\<lambda>e. fst e < k) xs" by (rule split_at_take [OF l])
  have th: "take hi xs = filter (\<lambda>e. fst e \<le> k) xs" by (rule split_at_take [OF h])
  have lol: "lo = length (filter (\<lambda>e. fst e < k) xs)"
    using l tl [symmetric] by (simp add: split_at_def)
  have hil: "hi = length (filter (\<lambda>e. fst e \<le> k) xs)"
    using h th [symmetric] by (simp add: split_at_def)
  have split: "take hi xs = take lo xs @ filter (\<lambda>e. fst e = k) xs"
    using filter_le_split [OF assms(1), of k] tl th by simp
  show le: "lo \<le> hi" using lol hil filter_le_split [OF assms(1), of k] by simp
  have "take (hi - lo) (drop lo xs) = drop lo (take hi xs)" by (simp add: drop_take)
  also have "\<dots> = filter (\<lambda>e. fst e = k) xs"
    using split l by (simp add: split_at_def)
  finally show sl: "take (hi - lo) (drop lo xs) = filter (\<lambda>e. fst e = k) xs" .
  have "drop lo xs = take (hi - lo) (drop lo xs) @ drop (hi - lo) (drop lo xs)"
    by (rule append_take_drop_id [symmetric])
  also have "\<dots> = filter (\<lambda>e. fst e = k) xs @ drop hi xs"
    using sl le by simp
  finally show "drop lo xs = filter (\<lambda>e. fst e = k) xs @ drop hi xs" .
qed

lemma GetValueByKey_sorted:
  assumes "sorted (m_elements st)"
  shows "GetValueByKey st k =
    (case filter (\<lambda>e. fst e = k) (m_elements st) of [] \<Rightarrow> None | e # _ \<Rightarrow> Some (snd e))"
proof -
  define xs where "xs = m_elements st"
  define lo where "lo = lower_bound ElementComparator_ek xs k"
  define hi where "hi = upper_bound ElementComparator_ke xs k"
  have s: "sorted xs" using assms by (simp add: xs_def)
  note er = equal_range_slice [OF s, of k, folded lo_def hi_def]
  have h: "split_at (\<lambda>e. fst e \<le> k) xs hi" unfolding hi_def by (rule upper_bound_sorted [OF s])
  have l: "lo \<le> length xs" using lower_bound_sorted [OF s, of k] by (simp add: split_at_def lo_def)
  show ?thesis
  proof (cases "filter (\<lambda>e. fst e = k) xs")
    case Nil
    then have "lo = hi" using er(1) er(3) l h by (auto simp: split_at_def)
    then have "lo < length xs \<Longrightarrow> fst (xs ! lo) \<noteq> k"
      using h by (auto simp: split_at_def)
    then show ?thesis using Nil l
      by (auto simp: GetValueByKey_def Let_def xs_def [symmetric] lo_def [symmetric])
  next
    case (Cons e es)
    then have d: "drop lo xs = e # es @ drop hi xs" using er(2) by simp
    then have lt: "lo < length xs" by (cases "lo < length xs") auto
    have "xs ! lo = hd (drop lo xs)" using lt by (simp add: hd_drop_conv_nth)
    then have e: "xs ! lo = e" using d by simp
    have "e \<in> set (filter (\<lambda>e. fst e = k) xs)" using Cons by simp
    then have "fst e = k" by simp
    then show ?thesis using Cons lt e
      by (simp add: GetValueByKey_def Let_def xs_def [symmetric] lo_def [symmetric])
  qed
qed

lemma ForEachByKey_sorted:
  assumes "sorted (m_elements st)"
  shows "ForEachByKey st k toDo s =
    for_range toDo (map snd (filter (\<lambda>e. fst e = k) (m_elements st))) s"
  using equal_range_slice(1) [OF assms, of k]
  by (simp add: ForEachByKey_def equal_range_def)

lemma sorted_values_of_key:
  "map snd (filter (\<lambda>e. fst e = k) (sort (kvs :: TElement list))) =
   sort (map snd (filter (\<lambda>e. fst e = k) kvs))"
proof (rule properties_for_sort [symmetric])
  show "mset (map snd (filter (\<lambda>e. fst e = k) (sort kvs))) = mset (map snd (filter (\<lambda>e. fst e = k) kvs))"
    by simp
  have "sorted (filter (\<lambda>e. fst e = k) (sort kvs))" by (simp add: sorted_wrt_filter)
  then have "sorted_wrt (\<lambda>a b. snd a \<le> snd b) (filter (\<lambda>e. fst e = k) (sort kvs))"
    by (rule sorted_wrt_mono_rel [rotated]) (auto simp: less_eq_prod_def)
  then show "sorted (map snd (filter (\<lambda>e. fst e = k) (sort kvs)))"
    by (simp add: sorted_wrt_map)
qed

subsection \<open>What the write side leaves in the file\<close>

lemma FileWriter_Write_at_end:
  "fw_pos w = length (fw_data w) \<Longrightarrow>
   FileWriter_Write w bs = \<lparr>fw_data = fw_data w @ bs, fw_pos = length (fw_data w) + length bs\<rparr>"
  by (simp add: FileWriter_Write_def Let_def)

lemma WriteAll_image:
  assumes "fw_pos (m_file st) = length (fw_data (m_file st))"
  shows "fw_data (m_file (WriteAll st)) = fw_data (m_file st) @ elements_bytes (m_elements st)"
    and "fw_pos (m_file (WriteAll st)) = length (fw_data (m_file (WriteAll st)))"
  using assms by (auto simp: WriteAll_def FileWriter_Write_at_end elements_bytes_def)

lemma Add_image:
  assumes "fw_pos (m_file st) = length (fw_data (m_file st))"
  shows "fw_data (m_file (Add st k v)) @ elements_bytes (m_elements (Add st k v))
         = fw_data (m_file st) @ elements_bytes (m_elements st) @ element_bytes (k, v)"
    and "fw_pos (m_file (Add st k v)) = length (fw_data (m_file (Add st k v)))"
  using WriteAll_image [OF assms] assms
  by (auto simp: Add_def Let_def WriteAll_elements elements_bytes_append elements_bytes_def)

lemma Add_all_image:
  "fw_pos (m_file st) = length (fw_data (m_file st)) \<Longrightarrow>
   fw_data (m_file (Add_all st es)) @ elements_bytes (m_elements (Add_all st es))
     = fw_data (m_file st) @ elements_bytes (m_elements st) @ elements_bytes es
   \<and> fw_pos (m_file (Add_all st es)) = length (fw_data (m_file (Add_all st es)))"
proof (induction es arbitrary: st)
  case Nil
  then show ?case by (simp add: Add_all_def elements_bytes_def)
next
  case (Cons e es)
  have "Add_all st (e # es) = Add_all (Add st (fst e) (snd e)) es" by (simp add: Add_all_def)
  then show ?case
    using Cons.IH [of "Add st (fst e) (snd e)"] Add_image [OF Cons.prems, of "fst e" "snd e"]
    by (simp add: elements_bytes_Cons)
qed

lemma index_file_written:
  "fw_data (m_file (WriteAll (Add_all (IndexFile_open FileWriter_open) es))) = elements_bytes es"
proof -
  define st0 :: "FileWriter IndexFile" where "st0 = IndexFile_open FileWriter_open"
  have p: "fw_pos (m_file st0) = length (fw_data (m_file st0))"
    by (simp add: st0_def IndexFile_open_def FileWriter_open_def)
  have e: "fw_data (m_file st0) = []" "m_elements st0 = []"
    by (simp_all add: st0_def IndexFile_open_def FileWriter_open_def)
  show ?thesis
    using Add_all_image [OF p, of es] WriteAll_image(1) [of "Add_all st0 es"] e
    by (simp add: st0_def [symmetric] elements_bytes_def)
qed

lemma ReadAll_written:
  assumes "length es \<le> mem" and "16 * length es < 2 ^ 64"
  shows "ReadAll mem (IndexFile_open (FileReader_open (elements_bytes es)))
     = Inr \<lparr>m_elements = sort es, m_file = FileReader_open (elements_bytes es),
            m_fileSize = of_nat (16 * length es)\<rparr>"
proof -
  define st where "st = IndexFile_open (FileReader_open (elements_bytes es))"
  have d: "fr_data (m_file st) = elements_bytes es"
    by (simp add: st_def IndexFile_open_def FileReader_open_def)
  have L: "length (fr_data (m_file st)) < 2 ^ 64"
    using assms(2) by (simp add: d length_elements_bytes)
  have dec: "elements_of_bytes (length es) (elements_bytes es) = es"
    using elements_of_bytes_elements_bytes [of es "[]"] by simp
  have "ReadAll mem st = Inr (st\<lparr>m_elements := sort es, m_fileSize := of_nat (16 * length es)\<rparr>)"
  proof (cases "es = []")
    case True
    then show ?thesis
      unfolding ReadAll_eq [OF L] by (simp add: d elements_bytes_def)
  next
    case False
    then show ?thesis
      unfolding ReadAll_eq [OF L] using assms(1) dec
      by (simp add: d length_elements_bytes Let_def std_sort_eq_sort)
  qed
  then show ?thesis
    by (simp add: st_def IndexFile_open_def)
qed

subsection \<open>The round trip of the index\<close>

lemma sorted_hd_Min: "sorted xs \<Longrightarrow> xs \<noteq> [] \<Longrightarrow> hd xs = Min (set xs)"
  by (cases xs) (auto intro!: Min_eqI [symmetric])

lemma for_range_recording:
  "for_range (\<lambda>v seen. (stop v, seen @ [v])) vs acc =
   acc @ takeWhile (\<lambda>v. \<not> stop v) vs @ take 1 (dropWhile (\<lambda>v. \<not> stop v) vs)"
  by (induction vs arbitrary: acc) auto

text \<open>
  Claim C1. After any sequence of \<open>Add\<close> calls, \<open>WriteAll\<close>, reopening the file and
  \<open>ReadAll\<close> (granted the memory, the file shorter than \<open>2^64\<close> bytes), the load
  succeeds; \<open>GetValueByKey k\<close> is the least value added under \<open>k\<close>, or nothing when
  no entry has that key; \<open>ForEachByKey k\<close> runs its visitor over the values added under
  \<open>k\<close> in ascending order and stops behind the first value at which the visitor
  answers true: a visitor that records its arguments has seen the ascending values up
  to and including that one.
\<close>

theorem index_round_trip:
  assumes "length kvs \<le> mem" and "16 * length kvs < 2 ^ 64"
  shows "\<exists>r. ReadAll mem (reopen_index (WriteAll (Add_all (IndexFile_open FileWriter_open) kvs))) = Inr r
    \<and> GetValueByKey r k =
        (if values_of_key k kvs = [] then None else Some (Min (set (values_of_key k kvs))))
    \<and> (\<forall>toDo s. ForEachByKey r k toDo s = for_range toDo (sort (values_of_key k kvs)) s)
    \<and> (\<forall>stop. ForEachByKey r k (\<lambda>v seen. (stop v, seen @ [v])) [] =
          takeWhile (\<lambda>v. \<not> stop v) (sort (values_of_key k kvs))
          @ take 1 (dropWhile (\<lambda>v. \<not> stop v) (sort (values_of_key k kvs))))"
proof -
  define r where "r = \<lparr>m_elements = sort kvs, m_file = FileReader_open (elements_bytes kvs),
            m_fileSize = (of_nat (16 * length kvs) :: u64)\<rparr>"
  have read: "ReadAll mem (reopen_index (WriteAll (Add_all (IndexFile_open FileWriter_open) kvs))) = Inr r"
    using ReadAll_written [OF assms] by (simp add: reopen_index_def index_file_written r_def)
  have s: "sorted (m_elements r)" by (simp add: r_def)
  have vals: "map snd (filter (\<lambda>e. fst e = k) (m_elements r)) = sort (values_of_key k kvs)"
    by (simp add: r_def sorted_values_of_key values_of_key_def)
  have each: "ForEachByKey r k toDo s = for_range toDo (sort (values_of_key k kvs)) s" for toDo :: "TValue \<Rightarrow> 's \<Rightarrow> bool \<times> 's" and s
    using ForEachByKey_sorted [OF s, of k toDo s] vals by simp
  have each': "ForEachByKey r k toDo s = for_range toDo (sort (values_of_key k kvs)) s" for toDo :: "TValue \<Rightarrow> TValue list \<Rightarrow> bool \<times> TValue list" and s
    using ForEachByKey_sorted [OF s, of k toDo s] vals by simp
  have gv: "GetValueByKey r k =
      (case sort (values_of_key k kvs) of [] \<Rightarrow> None | v # _ \<Rightarrow> Some v)"
    unfolding GetValueByKey_sorted [OF s, of k] vals [symmetric]
    by (cases "filter (\<lambda>e. fst e = k) (m_elements r)") simp_all
  have get: "GetValueByKey r k =
        (if values_of_key k kvs = [] then None else Some (Min (set (values_of_key k kvs))))"
  proof (cases "values_of_key k kvs = []")
    case True
    then show ?thesis unfolding gv by simp
  next
    case False
    have ne: "sort (values_of_key k kvs) \<noteq> []"
    proof
      assume "sort (values_of_key k kvs) = []"
      then have "set (sort (values_of_key k kvs)) = set []" by (rule arg_cong)
      then show False using False by simp
    qed
    then obtain v vs where c: "sort (values_of_key k kvs) = v # vs"
      by (cases "sort (values_of_key k kvs)") auto
    have "hd (sort (values_of_key k kvs)) = Min (set (sort (values_of_key k kvs)))"
      by (rule sorted_hd_Min [OF _ ne]) simp
    then have "hd (sort (values_of_key k kvs)) = Min (set (values_of_key k kvs))"
      by (simp only: set_sort)
    then have "v = Min (set (values_of_key k kvs))" by (simp only: c list.sel)
    then show ?thesis unfolding gv c using False by simp
  qed
  have rec: "ForEachByKey r k (\<lambda>v seen. (stop v, seen @ [v])) [] =
          takeWhile (\<lambda>v. \<not> stop v) (sort (values_of_key k kvs))
          @ take 1 (dropWhile (\<lambda>v. \<not> stop v) (sort (values_of_key k kvs)))" for stop
    unfolding each' by (simp add: for_range_recording)
  show ?thesis
    by (intro exI [of _ r] conjI allI) (rule read, rule get, rule each, rule rec)
qed

theorem index_round_trip_witness:
  "(\<exists>r. ReadAll 16 (reopen_index (WriteAll (Add_all (IndexFile_open FileWriter_open)
            [(10, 100), (20, 200), (10, 50)]))) = Inr r
      \<and> GetValueByKey r 10 = Some 50
      \<and> ForEachByKey r 10 (\<lambda>v seen. (False, seen @ [v])) [] = [50, 100]
      \<and> ForEachByKey r 10 (\<lambda>v seen. (True, seen @ [v])) [] = [50]
      \<and> GetValueByKey r 30 = None)"
proof -
  let ?kvs = "[(10, 100), (20, 200), (10, 50)] :: TElement list"
  have h: "length ?kvs \<le> 16" "16 * length ?kvs < 2 ^ 64" by simp_all
  have v10: "values_of_key 10 ?kvs = [100, 50]" and v30: "values_of_key 30 ?kvs = []"
    by (simp_all add: values_of_key_def)
  obtain r where r: "ReadAll 16 (reopen_index (WriteAll (Add_all (IndexFile_open FileWriter_open) ?kvs))) = Inr r"
    and g: "GetValueByKey r 10 = (if values_of_key 10 ?kvs = [] then None else Some (Min (set (values_of_key 10 ?kvs))))"
    and f: "\<forall>stop. ForEachByKey r 10 (\<lambda>v seen. (stop v, seen @ [v])) [] =
          takeWhile (\<lambda>v. \<not> stop v) (sort (values_of_key 10 ?kvs))
          @ take 1 (dropWhile (\<lambda>v. \<not> stop v) (sort (values_of_key 10 ?kvs)))"
    using index_round_trip [OF h, of 10] by blast
  obtain r' where r': "ReadAll 16 (reopen_index (WriteAll (Add_all (IndexFile_open FileWriter_open) ?kvs))) = Inr r'"
    and g': "GetValueByKey r' 30 = (if values_of_key 30 ?kvs = [] then None else Some (Min (set (values_of_key 30 ?kvs))))"
    using index_round_trip [OF h, of 30] by blast
  have same: "r' = r" using r r' by simp
  have "GetValueByKey r 10 = Some 50" using g by (simp add: v10)
  moreover have "ForEachByKey r 10 (\<lambda>v seen. (False, seen @ [v])) [] = [50, 100]"
    using f [rule_format, of "\<lambda>v. False"] by (simp add: v10)
  moreover have "ForEachByKey r 10 (\<lambda>v seen. (True, seen @ [v])) [] = [50]"
    using f [rule_format, of "\<lambda>v. True"] by (simp add: v10)
  moreover have "GetValueByKey r 30 = None" using g' same by (simp add: v30)
  ultimately show ?thesis using r by blast
qed

subsection \<open>Damaged files\<close>

lemma le_value_bound: "le_value bs < 256 ^ length bs"
proof (induction bs)
  case Nil show ?case by simp
next
  case (Cons b bs)
  have "unat b < 256" using unsigned_less [of b, where ?'a = nat] by simp
  then show ?case using Cons by simp
qed

lemma le_bytes_le_value: "le_bytes (length bs) (le_value bs) = bs"
proof (induction bs)
  case Nil show ?case by simp
next
  case (Cons b bs)
  have "unat b < 256" using unsigned_less [of b, where ?'a = nat] by simp
  then show ?case using Cons by simp
qed

lemma u64_bytes_bytes_u64: "length bs = 8 \<Longrightarrow> u64_bytes (bytes_u64 bs) = bs"
proof -
  assume l: "length bs = 8"
  have "le_value bs < 2 ^ 64" using le_value_bound [of bs] l by simp
  then have "unat (of_nat (le_value bs) :: u64) = le_value bs" by (simp add: unat_of_nat)
  then show ?thesis using le_bytes_le_value [of bs] l by (simp add: u64_bytes_def bytes_u64_def)
qed

lemma element_bytes_element_at:
  "16 * i + 16 \<le> length bs \<Longrightarrow> element_bytes (element_at bs i) = take 16 (drop (16 * i) bs)"
proof -
  assume a: "16 * i + 16 \<le> length bs"
  have "take 16 (drop (16 * i) bs) = take 8 (drop (16 * i) bs) @ take 8 (drop (16 * i + 8) bs)"
    using take_add [of 8 8 "drop (16 * i) bs"] by (simp add: add.commute)
  then show ?thesis using a
    by (simp add: element_bytes_def element_at_def sizeof_TElement_def u64_bytes_bytes_u64)
qed

lemma elements_bytes_elements_of_bytes:
  "16 * n \<le> length bs \<Longrightarrow> elements_bytes (elements_of_bytes n bs) = take (16 * n) bs"
proof (induction n)
  case 0 show ?case by (simp add: elements_bytes_def elements_of_bytes_def)
next
  case (Suc n)
  have "take (16 * Suc n) bs = take (16 * n) bs @ take 16 (drop (16 * n) bs)"
    using take_add [of "16 * n" 16 bs] by (simp add: add.commute)
  then show ?case using Suc element_bytes_element_at [of n bs]
    by (simp add: elements_bytes_def elements_of_bytes_def)
qed

lemma sorted_wrt_std_sort:
  "sorted_wrt (\<lambda>a b. \<not> ElementComparator b a) (std_sort ElementComparator xs)"
proof -
  have "(\<lambda>a b. \<not> ElementComparator b a) = (\<le>)"
    by (intro ext) (simp add: ElementComparator_less not_less)
  then show ?thesis using sorted_std_sort [of xs] by simp
qed

text \<open>
  Claim C5. On a file shorter than \<open>2^64\<close> bytes, \<open>ReadAll\<close> fails with the check
  ``Damaged file.'' whenever the length is no multiple of \<open>sizeof(TElement)\<close>. When it
  is a multiple, that check does not fail, and when moreover the memory is granted,
  \<open>ReadAll\<close> returns with the elements a rearrangement of the records whose image the
  file is, in the order of \<open>ElementComparator\<close>.
\<close>

theorem ReadAll_damaged_file:
  assumes "length (fr_data (m_file st)) < 2 ^ 64"
  shows "(length (fr_data (m_file st)) mod sizeof_TElement \<noteq> 0 \<longrightarrow>
            ReadAll mem st = Inl (CheckFailed ''Damaged file.''))
    \<and> (length (fr_data (m_file st)) mod sizeof_TElement = 0 \<longrightarrow>
          ReadAll mem st \<noteq> Inl (CheckFailed ''Damaged file.'')
          \<and> (length (fr_data (m_file st)) div sizeof_TElement \<le> mem \<longrightarrow>
               (\<exists>r es. ReadAll mem st = Inr r \<and> m_file r = m_file st
                  \<and> elements_bytes es = fr_data (m_file st)
                  \<and> mset (m_elements r) = mset es
                  \<and> sorted_wrt (\<lambda>a b. \<not> ElementComparator b a) (m_elements r))))"
proof -
  define L where "L = length (fr_data (m_file st))"
  define es where "es = elements_of_bytes (L div 16) (fr_data (m_file st))"
  have eq: "ReadAll mem st =
    (if L = 0 then Inr (st\<lparr>m_elements := [], m_fileSize := of_nat L\<rparr>)
     else if L mod 16 \<noteq> 0 then Inl (CheckFailed ''Damaged file.'')
     else if mem < L div 16 then Inl (Critical ''Insufficient memory for required offset map'')
     else Inr (st\<lparr>m_elements := std_sort ElementComparator es, m_fileSize := of_nat L\<rparr>))"
    unfolding ReadAll_eq [OF assms] by (simp add: Let_def L_def es_def)
  have bytes: "elements_bytes es = fr_data (m_file st)" if m: "L mod 16 = 0"
  proof -
    have "16 * (L div 16) = L" using m by auto
    then show ?thesis
      using elements_bytes_elements_of_bytes [of "L div 16" "fr_data (m_file st)"]
      by (simp add: es_def L_def)
  qed
  have e0: "L = 0 \<Longrightarrow> es = []" by (simp add: es_def elements_of_bytes_def)
  have damaged: "L mod 16 \<noteq> 0 \<Longrightarrow> ReadAll mem st = Inl (CheckFailed ''Damaged file.'')"
    unfolding eq by auto
  have fine: "L mod 16 = 0 \<Longrightarrow> ReadAll mem st \<noteq> Inl (CheckFailed ''Damaged file.'')"
    unfolding eq by auto
  have loaded: "\<exists>r es. ReadAll mem st = Inr r \<and> m_file r = m_file st
                  \<and> elements_bytes es = fr_data (m_file st)
                  \<and> mset (m_elements r) = mset es
                  \<and> sorted_wrt (\<lambda>a b. \<not> ElementComparator b a) (m_elements r)"
    if m: "L mod 16 = 0" and le: "L div 16 \<le> mem"
  proof (cases "L = 0")
    case True
    then show ?thesis unfolding eq using bytes [OF m] e0
      by (intro exI [of _ "st\<lparr>m_elements := [], m_fileSize := of_nat L\<rparr>"] exI [of _ "[]"]) simp
  next
    case False
    show ?thesis
      unfolding eq using False m le bytes [OF m]
      by (intro exI [of _ "st\<lparr>m_elements := std_sort ElementComparator es, m_fileSize := of_nat L\<rparr>"]
            exI [of _ es]) (simp add: mset_std_sort sorted_wrt_std_sort)
  qed
  show ?thesis
    using damaged fine loaded by (simp add: sizeof_TElement_def L_def [symmetric])
qed

lemma le_bytes_numeral:
  "le_bytes (numeral n) x = of_nat (x mod 256) # le_bytes (pred_numeral n) (x div 256)"
  by (metis le_bytes.simps(2) numeral_eq_Suc)

theorem ReadAll_damaged_file_witness:
  "ReadAll 4 (IndexFile_open (FileReader_open (take 20 (elements_bytes [(10, 100), (20, 200)]))))
     = Inl (CheckFailed ''Damaged file.'')
   \<and> ReadAll 4 (IndexFile_open (FileReader_open (elements_bytes [(20, 200), (10, 100)])))
     \<noteq> Inl (CheckFailed ''Damaged file.'')
   \<and> (\<exists>r es. ReadAll 4 (IndexFile_open (FileReader_open (elements_bytes [(20, 200), (10, 100)]))) = Inr r
         \<and> elements_bytes es = elements_bytes [(20, 200), (10, 100)]
         \<and> mset (m_elements r) = mset es
         \<and> sorted_wrt (\<lambda>a b. \<not> ElementComparator b a) (m_elements r))"
proof -
  let ?cut = "IndexFile_open (FileReader_open (take 20 (elements_bytes [(10, 100), (20, 200)])))"
  let ?whole = "IndexFile_open (FileReader_open (elements_bytes [(20, 200), (10, 100)]))"
  have lc: "length (fr_data (m_file ?cut)) = 20" and lw: "length (fr_data (m_file ?whole)) = 32"
    by (simp_all add: IndexFile_open_def FileReader_open_def length_elements_bytes)
  have dw: "fr_data (m_file ?whole) = elements_bytes [(20, 200), (10, 100)]"
    by (simp add: IndexFile_open_def FileReader_open_def)
  have mc: "length (fr_data (m_file ?cut)) mod sizeof_TElement \<noteq> 0"
    unfolding lc sizeof_TElement_def by simp
  have mw: "length (fr_data (m_file ?whole)) mod sizeof_TElement = 0"
    and dv: "length (fr_data (m_file ?whole)) div sizeof_TElement \<le> 4"
    unfolding lw sizeof_TElement_def by simp_all
  have "length (fr_data (m_file ?cut)) < 2 ^ 64" unfolding lc by simp
  note cut = ReadAll_damaged_file [OF this, of 4, THEN conjunct1]
  have a: "ReadAll 4 ?cut = Inl (CheckFailed ''Damaged file.'')"
    using cut mc by (rule mp)
  have "length (fr_data (m_file ?whole)) < 2 ^ 64" unfolding lw by simp
  note whole = ReadAll_damaged_file [OF this, of 4, THEN conjunct2, THEN mp, OF mw]
  have b: "ReadAll 4 ?whole \<noteq> Inl (CheckFailed ''Damaged file.'')"
    using whole by (rule conjunct1)
  have c: "\<exists>r es. ReadAll 4 ?whole = Inr r \<and> m_file r = m_file ?whole
         \<and> elements_bytes es = fr_data (m_file ?whole)
         \<and> mset (m_elements r) = mset es
         \<and> sorted_wrt (\<lambda>a b. \<not> ElementComparator b a) (m_elements r)"
    using whole [THEN conjunct2] dv by (rule mp)
  from c have "\<exists>r es. ReadAll 4 ?whole = Inr r
         \<and> elements_bytes es = elements_bytes [(20, 200), (10, 100)]
         \<and> mset (m_elements r) = mset es
         \<and> sorted_wrt (\<lambda>a b. \<not> ElementComparator b a) (m_elements r)"
    unfolding dw by blast
  with a b show ?thesis by blast
qed

subsection \<open>Flushing twice\<close>

text \<open>
  Claim C10. \<open>WriteAll\<close> is idempotent: it leaves the buffer empty, so a second
  \<open>WriteAll\<close> in a row changes neither the state nor the writer (no byte is written,
  the file is as it was); with an empty buffer \<open>WriteAll\<close> does nothing, and with
  entries in the buffer it is one write of their image.
\<close>

theorem WriteAll_idempotent:
  "WriteAll (WriteAll st) = WriteAll st
   \<and> m_file (WriteAll (WriteAll st)) = m_file (WriteAll st)
   \<and> m_elements (WriteAll st) = []
   \<and> (m_elements st = [] \<longrightarrow> WriteAll st = st)
   \<and> (m_elements st \<noteq> [] \<longrightarrow>
        m_file (WriteAll st) = FileWriter_Write (m_file st) (elements_bytes (m_elements st)))"
  by (simp add: WriteAll_def)

theorem WriteAll_idempotent_witness:
  "WriteAll (WriteAll (Add (IndexFile_open FileWriter_open) 10 100))
     = WriteAll (Add (IndexFile_open FileWriter_open) 10 100)
   \<and> fw_data (m_file (WriteAll (WriteAll (Add (IndexFile_open FileWriter_open) 10 100))))
     = [10, 0, 0, 0, 0, 0, 0, 0, 100, 0, 0, 0, 0, 0, 0, 0]
   \<and> WriteAll (IndexFile_open FileWriter_open) = IndexFile_open FileWriter_open"
proof -
  let ?st = "Add (IndexFile_open FileWriter_open) 10 100"
  have e: "m_elements ?st = [(10, 100)]" "m_file ?st = FileWriter_open"
    by (simp_all add: Add_def IndexFile_open_def kFlushCount_def)
  have b: "elements_bytes [(10, 100)] = [10, 0, 0, 0, 0, 0, 0, 0, 100, 0, 0, 0, 0, 0, 0, 0]"
    by (simp add: elements_bytes_def element_bytes_def u64_bytes_def le_bytes_numeral)
  note idem = WriteAll_idempotent [of ?st]
  have ne: "m_elements ?st \<noteq> []" unfolding e by simp
  have i1: "WriteAll (WriteAll ?st) = WriteAll ?st"
    using idem by (rule conjunct1)
  have "m_file (WriteAll ?st) = FileWriter_Write (m_file ?st) (elements_bytes (m_elements ?st))"
    using idem [THEN conjunct2, THEN conjunct2, THEN conjunct2, THEN conjunct2] ne by (rule mp)
  then have "fw_data (m_file (WriteAll ?st)) = elements_bytes [(10, 100)]"
    unfolding e by (simp add: FileWriter_Write_def FileWriter_open_def)
  then have i2: "fw_data (m_file (WriteAll (WriteAll ?st))) = [10, 0, 0, 0, 0, 0, 0, 0, 100, 0, 0, 0, 0, 0, 0, 0]"
    unfolding i1 b .
  have em: "m_elements (IndexFile_open FileWriter_open :: FileWriter IndexFile) = []"
    by (simp add: IndexFile_open_def)
  have i3: "WriteAll (IndexFile_open FileWriter_open) = IndexFile_open FileWriter_open"
    using WriteAll_idempotent [of "IndexFile_open FileWriter_open", THEN conjunct2, THEN conjunct2,
        THEN conjunct2, THEN conjunct1] em by (rule mp)
  show ?thesis using i1 i2 i3 by (intro conjI)
qed

section \<open>Properties of OSMElementCache\<close>

lemma length_u32_bytes: "length (u32_bytes w) = 4"
  by (simp add: u32_bytes_def length_le_bytes)

lemma length_record_bytes: "length (record_bytes p) = 4 + length p"
  by (simp add: record_bytes_def length_u32_bytes)

lemma unat_of_nat_u32: "n < 2 ^ 32 \<Longrightarrow> unat (of_nat n :: u32) = n"
  by (simp add: unat_of_nat)

lemma Write_step:
  assumes s: "fw_pos (m_storage c) = length (fw_data (m_storage c))"
    and i: "fw_pos (m_file (m_offsets c)) = length (fw_data (m_file (m_offsets c)))"
    and w: "Write c ident p = Inr c'"
  shows "length p < 2 ^ 32 - 1"
    and "fw_pos (m_storage c') = length (fw_data (m_storage c'))"
    and "fw_pos (m_file (m_offsets c')) = length (fw_data (m_file (m_offsets c')))"
    and "fw_data (m_storage c') = fw_data (m_storage c) @ record_bytes p"
    and "fw_data (m_file (m_offsets c')) @ elements_bytes (m_elements (m_offsets c'))
         = fw_data (m_file (m_offsets c)) @ elements_bytes (m_elements (m_offsets c))
           @ element_bytes (ident, of_nat (length (fw_data (m_storage c))))"
    and "m_name c' = m_name c" and "m_preload c' = m_preload c"
proof -
  show l: "length p < 2 ^ 32 - 1"
    using w by (auto simp: Write_def Let_def split: if_splits)
  then have u: "unat (of_nat (length p) :: u32) = length p"
    by (simp add: unat_of_nat_u32)
  define s1 where "s1 = FileWriter_Write (m_storage c) (u32_bytes (of_nat (length p)))"
  have s1: "fw_data s1 = fw_data (m_storage c) @ u32_bytes (of_nat (length p))"
    "fw_pos s1 = length (fw_data s1)"
    using s by (simp_all add: s1_def FileWriter_Write_at_end length_u32_bytes)
  have c': "c' = c\<lparr>m_offsets := Add (m_offsets c) ident (FileWriter_Pos (m_storage c)),
                   m_data := p, m_storage := FileWriter_Write s1 p\<rparr>"
    using w l u by (simp add: Write_def Let_def s1_def)
  show "fw_pos (m_storage c') = length (fw_data (m_storage c'))"
    and "fw_data (m_storage c') = fw_data (m_storage c) @ record_bytes p"
    using s1 by (simp_all add: c' FileWriter_Write_at_end record_bytes_def)
  show "m_name c' = m_name c" and "m_preload c' = m_preload c" by (simp_all add: c')
  show "fw_pos (m_file (m_offsets c')) = length (fw_data (m_file (m_offsets c')))"
    using Add_image(2) [OF i] by (simp add: c')
  show "fw_data (m_file (m_offsets c')) @ elements_bytes (m_elements (m_offsets c'))
         = fw_data (m_file (m_offsets c)) @ elements_bytes (m_elements (m_offsets c))
           @ element_bytes (ident, of_nat (length (fw_data (m_storage c))))"
    using Add_image(1) [OF i] s by (simp add: c' FileWriter_Pos_def)
qed

lemma Write_all_image:
  "fw_pos (m_storage c) = length (fw_data (m_storage c)) \<Longrightarrow>
   fw_pos (m_file (m_offsets c)) = length (fw_data (m_file (m_offsets c))) \<Longrightarrow>
   Write_all c ws = Inr c' \<Longrightarrow>
   fw_pos (m_storage c') = length (fw_data (m_storage c'))
   \<and> fw_pos (m_file (m_offsets c')) = length (fw_data (m_file (m_offsets c')))
   \<and> fw_data (m_storage c') = fw_data (m_storage c) @ records ws
   \<and> fw_data (m_file (m_offsets c')) @ elements_bytes (m_elements (m_offsets c'))
       = fw_data (m_file (m_offsets c)) @ elements_bytes (m_elements (m_offsets c))
         @ elements_bytes (layout (length (fw_data (m_storage c))) ws)
   \<and> (\<forall>w\<in>set ws. length (snd w) < 2 ^ 32 - 1)
   \<and> m_name c' = m_name c"
proof (induction ws arbitrary: c)
  case Nil
  then show ?case by (simp add: elements_bytes_def)
next
  case (Cons w ws)
  from Cons.prems(3) obtain c1 where w1: "Write c (fst w) (snd w) = Inr c1"
    and rest: "Write_all c1 ws = Inr c'"
    by (auto split: sum.splits)
  note st = Write_step [OF Cons.prems(1,2) w1]
  note ih = Cons.IH [OF st(2) st(3) rest]
  have len: "length (fw_data (m_storage c1)) = length (fw_data (m_storage c)) + 4 + length (snd w)"
    by (simp add: st(4) length_record_bytes)
  let ?L = "elements_bytes (layout (length (fw_data (m_storage c1))) ws)"
  have "(fw_data (m_file (m_offsets c1)) @ elements_bytes (m_elements (m_offsets c1))) @ ?L
      = (fw_data (m_file (m_offsets c)) @ elements_bytes (m_elements (m_offsets c))
           @ element_bytes (fst w, of_nat (length (fw_data (m_storage c))))) @ ?L"
    using st(5) by (rule arg_cong [where f = "\<lambda>x. x @ ?L"])
  then have ix: "fw_data (m_file (m_offsets c')) @ elements_bytes (m_elements (m_offsets c'))
      = fw_data (m_file (m_offsets c)) @ elements_bytes (m_elements (m_offsets c))
         @ elements_bytes (layout (length (fw_data (m_storage c))) (w # ws))"
    using ih by (simp add: elements_bytes_Cons len)
  have dt: "fw_data (m_storage c') = fw_data (m_storage c) @ records (w # ws)"
    using ih by (simp add: st(4))
  show ?case
    using ih st(1) st(6) ix dt by simp
qed

lemma length_layout: "length (layout pos ws) = length ws"
  by (induction ws arbitrary: pos) auto

lemma reopen_cache_written:
  assumes w: "Write_all (OSMElementCache_Write_open name pl) ws = Inr w"
    and big: "length (fw_data (m_storage w)) < 2 ^ 64" "16 * length ws < 2 ^ 64"
    and mem: "length ws \<le> mem"
  shows "reopen_cache mem preload w = Inr
     \<lparr>m_storage = FileReader_open (records ws),
      m_offsets = \<lparr>m_elements = sort (layout 0 ws),
                   m_file = FileReader_open (elements_bytes (layout 0 ws)),
                   m_fileSize = of_nat (16 * length ws)\<rparr>,
      m_name = name, m_data = (if preload then records ws else []), m_preload = preload\<rparr>"
    and "fw_data (m_storage w) = records ws"
    and "\<forall>w\<in>set ws. length (snd w) < 2 ^ 32 - 1"
proof -
  let ?c = "OSMElementCache_Write_open name pl"
  have p: "fw_pos (m_storage ?c) = length (fw_data (m_storage ?c))"
    "fw_pos (m_file (m_offsets ?c)) = length (fw_data (m_file (m_offsets ?c)))"
    by (simp_all add: OSMElementCache_Write_open_def FileWriter_open_def IndexFile_open_def)
  note im = Write_all_image [OF p w]
  have z: "fw_data (m_storage ?c) = []" "fw_data (m_file (m_offsets ?c)) = []"
    "m_elements (m_offsets ?c) = []" "m_name ?c = name"
    by (simp_all add: OSMElementCache_Write_open_def FileWriter_open_def IndexFile_open_def)
  show d: "fw_data (m_storage w) = records ws" using im z by simp
  show "\<forall>w\<in>set ws. length (snd w) < 2 ^ 32 - 1" using im by simp
  have ix: "fw_data (m_file (WriteAll (m_offsets w))) = elements_bytes (layout 0 ws)"
    using WriteAll_image(1) [of "m_offsets w"] im z by (simp add: elements_bytes_def)
  have n: "m_name w = name" using im z by simp
  have rd: "ReadAll mem (IndexFile_open (FileReader_open (elements_bytes (layout 0 ws))))
     = Inr \<lparr>m_elements = sort (layout 0 ws), m_file = FileReader_open (elements_bytes (layout 0 ws)),
            m_fileSize = of_nat (16 * length ws)\<rparr>"
    using ReadAll_written [of "layout 0 ws" mem] big(2) mem by (simp add: length_layout)
  have u: "unat (of_nat (length (records ws)) :: u64) = length (records ws)"
    using big(1) d by (simp add: unat_of_nat_u64)
  show "reopen_cache mem preload w = Inr
     \<lparr>m_storage = FileReader_open (records ws),
      m_offsets = \<lparr>m_elements = sort (layout 0 ws),
                   m_file = FileReader_open (elements_bytes (layout 0 ws)),
                   m_fileSize = of_nat (16 * length ws)\<rparr>,
      m_name = name, m_data = (if preload then records ws else []), m_preload = preload\<rparr>"
    using rd u
    by (simp add: reopen_cache_def SaveOffsets_def OSMElementCache_Read_open_def
        InitStorage_Read_def LoadOffsets_def ix d n Let_def FileReader_Size_def
        FileReader_Read_def FileReader_open_def)
qed

lemma GetValueByKey_sort:
  assumes "m_elements st = sort kvs"
  shows "GetValueByKey st k =
    (if values_of_key k kvs = [] then None else Some (Min (set (values_of_key k kvs))))"
proof -
  have s: "sorted (m_elements st)" by (simp add: assms)
  have vals: "map snd (filter (\<lambda>e. fst e = k) (m_elements st)) = sort (values_of_key k kvs)"
    by (simp add: assms sorted_values_of_key values_of_key_def)
  have gv: "GetValueByKey st k =
      (case sort (values_of_key k kvs) of [] \<Rightarrow> None | v # _ \<Rightarrow> Some v)"
    unfolding GetValueByKey_sorted [OF s, of k] vals [symmetric]
    by (cases "filter (\<lambda>e. fst e = k) (m_elements st)") simp_all
  show ?thesis
  proof (cases "values_of_key k kvs = []")
    case True
    then show ?thesis unfolding gv by simp
  next
    case False
    have ne: "sort (values_of_key k kvs) \<noteq> []"
    proof
      assume "sort (values_of_key k kvs) = []"
      then have "set (sort (values_of_key k kvs)) = set []" by (rule arg_cong)
      then show False using False by simp
    qed
    then obtain v vs where c: "sort (values_of_key k kvs) = v # vs"
      by (cases "sort (values_of_key k kvs)") auto
    have "hd (sort (values_of_key k kvs)) = Min (set (sort (values_of_key k kvs)))"
      by (rule sorted_hd_Min [OF _ ne]) simp
    then have "hd (sort (values_of_key k kvs)) = Min (set (values_of_key k kvs))"
      by (simp only: set_sort)
    then have "v = Min (set (values_of_key k kvs))" by (simp only: c list.sel)
    then show ?thesis unfolding gv c using False by simp
  qed
qed

lemma length_records_Cons: "length (records (w # ws)) = 4 + length (snd w) + length (records ws)"
  by (simp add: length_record_bytes)

lemma layout_bounds:
  "e \<in> set (layout pos ws) \<Longrightarrow>
   \<exists>q. snd e = of_nat q \<and> pos \<le> q \<and> q + 4 \<le> pos + length (records ws)"
proof (induction ws arbitrary: pos)
  case Nil then show ?case by simp
next
  case (Cons w ws)
  show ?case
  proof (cases "e = (fst w, of_nat pos)")
    case True
    then show ?thesis by (intro exI [of _ pos]) (simp add: length_record_bytes)
  next
    case False
    then have "e \<in> set (layout (pos + 4 + length (snd w)) ws)" using Cons.prems by simp
    from Cons.IH [OF this] obtain q where "snd e = of_nat q" "pos + 4 + length (snd w) \<le> q"
      "q + 4 \<le> pos + 4 + length (snd w) + length (records ws)" by blast
    then show ?thesis by (intro exI [of _ q]) (simp add: length_record_bytes)
  qed
qed

lemma of_nat_u64_mono: "a \<le> b \<Longrightarrow> b < 2 ^ 64 \<Longrightarrow> (of_nat a :: u64) \<le> of_nat b"
  by (simp add: word_le_nat_alt unat_of_nat_u64)

lemma find_first_None:
  "find_first pos ws ident = None \<Longrightarrow> values_of_key ident (layout pos ws) = [] \<and> map_of ws ident = None"
  by (induction ws arbitrary: pos) (auto simp: values_of_key_def split: if_splits)

lemma find_first_Some:
  "pos + length (records ws) < 2 ^ 64 \<Longrightarrow> find_first pos ws ident = Some (q, p) \<Longrightarrow>
   values_of_key ident (layout pos ws) \<noteq> []
   \<and> Min (set (values_of_key ident (layout pos ws))) = of_nat q
   \<and> pos \<le> q \<and> q + 4 + length p \<le> pos + length (records ws)
   \<and> take (4 + length p) (drop (q - pos) (records ws)) = record_bytes p
   \<and> (ident, p) \<in> set ws"
proof (induction ws arbitrary: pos)
  case Nil then show ?case by simp
next
  case (Cons w ws)
  show ?case
  proof (cases "fst w = ident")
    case True
    then have qp: "q = pos" "p = snd w" using Cons.prems(2) by simp_all
    let ?rest = "values_of_key ident (layout (pos + 4 + length (snd w)) ws)"
    have vals: "values_of_key ident (layout pos (w # ws)) = of_nat pos # ?rest"
      using True by (simp add: values_of_key_def)
    have "\<forall>v\<in>set ?rest. (of_nat pos :: u64) \<le> v"
    proof
      fix v assume "v \<in> set ?rest"
      then obtain e where e: "e \<in> set (layout (pos + 4 + length (snd w)) ws)" "v = snd e"
        by (auto simp: values_of_key_def)
      from layout_bounds [OF e(1)] obtain q' where q': "snd e = of_nat q'"
        "pos + 4 + length (snd w) \<le> q'" "q' + 4 \<le> pos + 4 + length (snd w) + length (records ws)"
        by blast
      have "q' < 2 ^ 64" using q'(3) Cons.prems(1) by (simp add: length_record_bytes)
      then show "(of_nat pos :: u64) \<le> v" using q'(1,2) e(2) of_nat_u64_mono [of pos q'] by simp
    qed
    then have "Min (set (of_nat pos # ?rest)) = (of_nat pos :: u64)"
      by (intro Min_eqI) auto
    moreover have "take (4 + length p) (drop (q - pos) (records (w # ws))) = record_bytes p"
      by (simp add: qp length_record_bytes)
    moreover have "(ident, p) \<in> set (w # ws)" using True qp by (cases w) auto
    ultimately show ?thesis using vals qp by (simp add: length_record_bytes)
  next
    case False
    let ?pos = "pos + 4 + length (snd w)"
    have f: "find_first ?pos ws ident = Some (q, p)" using Cons.prems(2) False by simp
    have b: "?pos + length (records ws) < 2 ^ 64"
      using Cons.prems(1) by (simp add: length_record_bytes)
    note ih = Cons.IH [OF b f]
    have vals: "values_of_key ident (layout pos (w # ws)) = values_of_key ident (layout ?pos ws)"
      using False by (simp add: values_of_key_def)
    have ge: "?pos \<le> q" using ih by simp
    have "drop (q - pos) (records (w # ws)) = drop (q - ?pos) (records ws)"
      using ge by (simp add: length_record_bytes add.assoc)
    then show ?thesis using ih vals by (simp add: length_record_bytes)
  qed
qed

lemma written_files:
  assumes "Write_all (OSMElementCache_Write_open name pl) ws = Inr w"
  shows "fw_data (m_storage w) = records ws"
    and "fw_data (m_file (m_offsets (SaveOffsets w))) = elements_bytes (layout 0 ws)"
    and "\<forall>w\<in>set ws. length (snd w) < 2 ^ 32 - 1"
proof -
  let ?c = "OSMElementCache_Write_open name pl"
  have p: "fw_pos (m_storage ?c) = length (fw_data (m_storage ?c))"
    "fw_pos (m_file (m_offsets ?c)) = length (fw_data (m_file (m_offsets ?c)))"
    by (simp_all add: OSMElementCache_Write_open_def FileWriter_open_def IndexFile_open_def)
  note im = Write_all_image [OF p assms]
  have z: "fw_data (m_storage ?c) = []" "fw_data (m_file (m_offsets ?c)) = []"
    "m_elements (m_offsets ?c) = []"
    by (simp_all add: OSMElementCache_Write_open_def FileWriter_open_def IndexFile_open_def)
  show "fw_data (m_storage w) = records ws" using im z by simp
  show "\<forall>w\<in>set ws. length (snd w) < 2 ^ 32 - 1" using im by simp
  show "fw_data (m_file (m_offsets (SaveOffsets w))) = elements_bytes (layout 0 ws)"
    using WriteAll_image(1) [of "m_offsets w"] im z by (simp add: elements_bytes_def SaveOffsets_def)
qed

lemma Write_succeeds:
  "length p < 2 ^ 32 - 1 \<Longrightarrow> \<exists>c'. Write c ident p = Inr c'"
  by (simp add: Write_def Let_def)

lemma Write_all_succeeds:
  "\<forall>w\<in>set ws. length (snd w) < 2 ^ 32 - 1 \<Longrightarrow> \<exists>c'. Write_all c ws = Inr c'"
proof (induction ws arbitrary: c)
  case Nil show ?case by simp
next
  case (Cons w ws)
  then obtain c1 where "Write c (fst w) (snd w) = Inr c1"
    using Write_succeeds [of "snd w" c "fst w"] by auto
  then show ?case using Cons.IH [of c1] Cons.prems by simp
qed

lemma Read_written:
  assumes st: "m_storage r = FileReader_open (records ws)"
    and ix: "m_elements (m_offsets r) = sort (layout 0 ws)"
    and pre: "m_preload r \<Longrightarrow> m_data r = records ws"
    and big: "length (records ws) < 2 ^ 64"
    and small: "\<forall>w\<in>set ws. length (snd w) < 2 ^ 32 - 1"
  shows "Read r ident =
    (case find_first 0 ws ident of
       None \<Rightarrow> Inr (None, [Warning ''Can't find offset in file'' ident], r)
     | Some (q, p) \<Rightarrow> Inr (Some p, [], if m_preload r then r else r\<lparr>m_data := p\<rparr>))"
proof (cases "find_first 0 ws ident")
  case None
  then have "GetValueByKey (m_offsets r) ident = None"
    using find_first_None [OF None] GetValueByKey_sort [OF ix, of ident] by simp
  then show ?thesis using None by (simp add: Read_def)
next
  case (Some qp)
  obtain q p where qp: "qp = (q, p)" by (cases qp)
  have b0: "0 + length (records ws) < 2 ^ 64" using big by simp
  note ff = find_first_Some [OF b0 Some [unfolded qp]]
  have g: "GetValueByKey (m_offsets r) ident = Some (of_nat q)"
    using ff GetValueByKey_sort [OF ix, of ident] by simp
  have q64: "q + 4 + length p \<le> length (records ws)" using ff by simp
  then have uq: "unat (of_nat q :: u64) = q" using big by (simp add: unat_of_nat_u64)
  have "(of_nat q :: u64) + 4 = of_nat (q + 4)" by simp
  then have uq4: "unat ((of_nat q :: u64) + 4) = q + 4"
    using q64 big by (simp only: unat_of_nat_u64)
  have lp: "length p < 2 ^ 32 - 1" using ff small by auto
  then have up: "unat (of_nat (length p) :: u32) = length p" by (simp add: unat_of_nat_u32)
  have rec: "take (4 + length p) (drop q (records ws)) = u32_bytes (of_nat (length p)) @ p"
    using ff by (simp add: record_bytes_def)
  have "take 4 (take (4 + length p) (drop q (records ws))) = take 4 (drop q (records ws))"
    by simp
  then have sz: "take 4 (drop q (records ws)) = u32_bytes (of_nat (length p))"
    unfolding rec by (simp add: length_u32_bytes)
  have "drop 4 (take (4 + length p) (drop q (records ws))) = take (length p) (drop (q + 4) (records ws))"
    by (simp add: drop_take add.commute)
  then have pl: "take (length p) (drop (q + 4) (records ws)) = p"
    unfolding rec by (simp add: length_u32_bytes)
  show ?thesis
  proof (cases "m_preload r")
    case True
    then show ?thesis
      using g q64 pre
      by (simp add: Read_def Some qp uq uq4 sz pl up bytes_u32_u32_bytes Let_def)
  next
    case False
    then show ?thesis
      using g q64
      by (simp add: Read_def Some qp uq uq4 sz pl up bytes_u32_u32_bytes Let_def st
          FileReader_Read_def FileReader_open_def)
  qed
qed

lemma find_first_append:
  "ident \<notin> fst ` set ws1 \<Longrightarrow>
   find_first pos (ws1 @ (ident, A) # rest) ident = Some (pos + length (records ws1), A)"
  by (induction ws1 arbitrary: pos) (auto simp: length_record_bytes)

lemma find_first_distinct:
  "distinct (map fst ws) \<Longrightarrow> (ident, p) \<in> set ws \<Longrightarrow> \<exists>q. find_first pos ws ident = Some (q, p)"
proof (induction ws arbitrary: pos)
  case Nil then show ?case by simp
next
  case (Cons w ws)
  show ?case
  proof (cases "fst w = ident")
    case True
    then have "w = (ident, p)" using Cons.prems by (cases w) force
    then show ?thesis by simp
  next
    case False
    then show ?thesis using Cons by auto
  qed
qed

lemma reopened_cache:
  assumes w: "Write_all (OSMElementCache_Write_open name pl) ws = Inr w"
    and big: "length (fw_data (m_storage w)) < 2 ^ 64"
      "length (fw_data (m_file (m_offsets (SaveOffsets w)))) < 2 ^ 64"
    and mem: "length ws \<le> mem"
  shows "\<exists>r. reopen_cache mem preload w = Inr r
     \<and> m_preload r = preload
     \<and> (\<forall>buf ident. Read (if preload then r else r\<lparr>m_data := buf\<rparr>) ident =
          (case find_first 0 ws ident of
             None \<Rightarrow> Inr (None, [Warning ''Can't find offset in file'' ident],
                       if preload then r else r\<lparr>m_data := buf\<rparr>)
           | Some (q, p) \<Rightarrow> Inr (Some p, [], if preload then r else r\<lparr>m_data := p\<rparr>)))
     \<and> (\<forall>ident. GetValueByKey (m_offsets r) ident =
          (case find_first 0 ws ident of None \<Rightarrow> None | Some (q, p) \<Rightarrow> Some (of_nat q)))"
proof -
  note wf = written_files [OF w]
  have b16: "16 * length ws < 2 ^ 64"
    using big(2) by (simp add: wf(2) length_elements_bytes length_layout)
  define r where "r =
     \<lparr>m_storage = FileReader_open (records ws),
      m_offsets = \<lparr>m_elements = sort (layout 0 ws),
                   m_file = FileReader_open (elements_bytes (layout 0 ws)),
                   m_fileSize = (of_nat (16 * length ws) :: u64)\<rparr>,
      m_name = name, m_data = (if preload then records ws else []), m_preload = preload\<rparr>"
  have ro: "reopen_cache mem preload w = Inr r"
    unfolding r_def by (rule reopen_cache_written(1) [OF w big(1) b16 mem])
  have bigr: "length (records ws) < 2 ^ 64" using big(1) by (simp add: wf(1))
  have rd: "Read (if preload then r else r\<lparr>m_data := buf\<rparr>) ident =
          (case find_first 0 ws ident of
             None \<Rightarrow> Inr (None, [Warning ''Can't find offset in file'' ident],
                       if preload then r else r\<lparr>m_data := buf\<rparr>)
           | Some (q, p) \<Rightarrow> Inr (Some p, [], if preload then r else r\<lparr>m_data := p\<rparr>))" for buf ident
  proof (cases preload)
    case True
    have a: "m_storage r = FileReader_open (records ws)"
      "m_elements (m_offsets r) = sort (layout 0 ws)"
      "m_preload r \<Longrightarrow> m_data r = records ws"
      "m_preload r"
      using True by (simp_all add: r_def)
    show ?thesis
      using Read_written [OF a(1) a(2) a(3) bigr wf(3), of ident] a(4) True
      by (simp split: option.splits)
  next
    case False
    let ?r = "r\<lparr>m_data := buf\<rparr>"
    have a: "m_storage ?r = FileReader_open (records ws)"
      "m_elements (m_offsets ?r) = sort (layout 0 ws)"
      "m_preload ?r \<Longrightarrow> m_data ?r = records ws"
      "\<not> m_preload ?r"
      using False by (simp_all add: r_def)
    show ?thesis
      using Read_written [OF a(1) a(2) a(3) bigr wf(3), of ident] a(4) False
      by (simp split: option.splits)
  qed
  have gv: "GetValueByKey (m_offsets r) ident =
          (case find_first 0 ws ident of None \<Rightarrow> None | Some (q, p) \<Rightarrow> Some (of_nat q))" for ident
  proof (cases "find_first 0 ws ident")
    case None
    then show ?thesis
      using find_first_None [OF None] GetValueByKey_sort [of "m_offsets r" "layout 0 ws" ident]
      by (simp add: r_def)
  next
    case (Some qp)
    obtain q p where qp: "qp = (q, p)" by (cases qp)
    have b0: "0 + length (records ws) < 2 ^ 64" using bigr by simp
    show ?thesis
      using find_first_Some [OF b0 Some [unfolded qp]]
        GetValueByKey_sort [of "m_offsets r" "layout 0 ws" ident]
      by (simp add: r_def Some qp)
  qed
  have "m_preload r = preload" by (simp add: r_def)
  then show ?thesis using ro rd gv by blast
qed

text \<open>
  Claim C2. After a run of \<open>Write\<close> calls with pairwise distinct ids that all return,
  \<open>SaveOffsets\<close>, reopening the two files in read mode without preload and
  \<open>LoadOffsets\<close> (both files shorter than \<open>2^64\<close> bytes, the memory granted), the
  reopening succeeds and \<open>Read\<close> of each written id answers true with exactly the
  bytes written under it, whatever earlier reads left in the buffer.
\<close>

theorem payload_round_trip:
  assumes "Write_all (OSMElementCache_Write_open name pl) ws = Inr w"
    and "length (fw_data (m_storage w)) < 2 ^ 64"
    and "length (fw_data (m_file (m_offsets (SaveOffsets w)))) < 2 ^ 64"
    and "length ws \<le> mem"
    and "distinct (map fst ws)"
    and "(ident, payload) \<in> set ws"
  shows "\<exists>r. reopen_cache mem False w = Inr r
     \<and> (\<forall>buf. Read (r\<lparr>m_data := buf\<rparr>) ident = Inr (Some payload, [], r\<lparr>m_data := payload\<rparr>))
     \<and> Read r ident = Inr (Some payload, [], r\<lparr>m_data := payload\<rparr>)"
proof -
  from reopened_cache [OF assms(1-4), of False] obtain r where r: "reopen_cache mem False w = Inr r"
    and rd0: "\<forall>buf ident. Read (if False then r else r\<lparr>m_data := buf\<rparr>) ident =
          (case find_first 0 ws ident of
             None \<Rightarrow> Inr (None, [Warning ''Can't find offset in file'' ident],
                       if False then r else r\<lparr>m_data := buf\<rparr>)
           | Some (q, p) \<Rightarrow> Inr (Some p, [], if False then r else r\<lparr>m_data := p\<rparr>))"
    by blast
  have rd: "Read (r\<lparr>m_data := buf\<rparr>) ident =
          (case find_first 0 ws ident of
             None \<Rightarrow> Inr (None, [Warning ''Can't find offset in file'' ident], r\<lparr>m_data := buf\<rparr>)
           | Some (q, p) \<Rightarrow> Inr (Some p, [], r\<lparr>m_data := p\<rparr>))" for buf ident
    using rd0 [rule_format, of buf ident] by (simp cong: option.case_cong)
  from find_first_distinct [OF assms(5,6), of 0] obtain q where q: "find_first 0 ws ident = Some (q, payload)"
    by blast
  have a: "Read (r\<lparr>m_data := buf\<rparr>) ident = Inr (Some payload, [], r\<lparr>m_data := payload\<rparr>)" for buf
    using rd [of buf ident] by (simp add: q)
  have "r\<lparr>m_data := m_data r\<rparr> = r" by simp
  then have "Read r ident = Inr (Some payload, [], r\<lparr>m_data := payload\<rparr>)"
    using a [of "m_data r"] by simp
  then show ?thesis using r a by blast
qed

text \<open>
  Claim C3. When \<open>Write(id, A)\<close> is the first write of \<open>id\<close> and \<open>Write(id, B)\<close> comes
  later in the same run, then after \<open>SaveOffsets\<close>, reopening in read mode (with or
  without preload) and \<open>LoadOffsets\<close>, the index lookup of \<open>id\<close> gives the offset
  of the record of \<open>A\<close>, the sum of the record sizes written before it, and \<open>Read(id)\<close>
  answers true with the bytes of \<open>A\<close>.
\<close>

theorem duplicate_id_first_write_wins:
  assumes "Write_all (OSMElementCache_Write_open name pl)
             (ws1 @ (ident, A) # ws2 @ (ident, B) # ws3) = Inr w"
    and "length (fw_data (m_storage w)) < 2 ^ 64"
    and "length (fw_data (m_file (m_offsets (SaveOffsets w)))) < 2 ^ 64"
    and "length (ws1 @ (ident, A) # ws2 @ (ident, B) # ws3) \<le> mem"
    and "ident \<notin> fst ` set ws1"
  shows "\<exists>r. reopen_cache mem preload w = Inr r
     \<and> GetValueByKey (m_offsets r) ident = Some (of_nat (length (records ws1)))
     \<and> (\<exists>r'. Read r ident = Inr (Some A, [], r'))"
proof -
  let ?ws = "ws1 @ (ident, A) # ws2 @ (ident, B) # ws3"
  from reopened_cache [OF assms(1-4), of preload] obtain r where r: "reopen_cache mem preload w = Inr r"
    and rd0: "\<forall>buf ident. Read (if preload then r else r\<lparr>m_data := buf\<rparr>) ident =
          (case find_first 0 ?ws ident of
             None \<Rightarrow> Inr (None, [Warning ''Can't find offset in file'' ident],
                       if preload then r else r\<lparr>m_data := buf\<rparr>)
           | Some (q, p) \<Rightarrow> Inr (Some p, [], if preload then r else r\<lparr>m_data := p\<rparr>))"
    and gv0: "\<forall>ident. GetValueByKey (m_offsets r) ident =
          (case find_first 0 ?ws ident of None \<Rightarrow> None | Some (q, p) \<Rightarrow> Some (of_nat q))"
    by blast
  note rd = rd0 [rule_format] and gv = gv0 [rule_format]
  have f: "find_first 0 ?ws ident = Some (length (records ws1), A)"
    using find_first_append [OF assms(5), of 0 A "ws2 @ (ident, B) # ws3"] by simp
  have "(if preload then r else r\<lparr>m_data := m_data r\<rparr>) = r" by simp
  then have "Read r ident = Inr (Some A, [], if preload then r else r\<lparr>m_data := A\<rparr>)"
    using rd [of "m_data r" ident] unfolding f by (cases preload) simp_all
  moreover have "GetValueByKey (m_offsets r) ident = Some (of_nat (length (records ws1)))"
    using gv [of ident] by (simp add: f)
  ultimately show ?thesis using r by blast
qed

text \<open>
  Claim C4. For every written cache and every id, \<open>Read\<close> on the cache reopened with
  preload and \<open>Read\<close> on the cache reopened without it both return, with the same
  answer (the same bytes when it is true) and the same log lines; the read with preload
  leaves its cache as it was.
\<close>

theorem preload_equivalence:
  assumes "Write_all (OSMElementCache_Write_open name pl) ws = Inr w"
    and "length (fw_data (m_storage w)) < 2 ^ 64"
    and "length (fw_data (m_file (m_offsets (SaveOffsets w)))) < 2 ^ 64"
    and "length ws \<le> mem"
  shows "\<exists>rp rn. reopen_cache mem True w = Inr rp \<and> reopen_cache mem False w = Inr rn
     \<and> (\<forall>buf. \<exists>answer logged rp' rn'.
           Read rp ident = Inr (answer, logged, rp')
         \<and> Read (rn\<lparr>m_data := buf\<rparr>) ident = Inr (answer, logged, rn')
         \<and> rp' = rp)
     \<and> (\<exists>answer logged rn'.
           Read rp ident = Inr (answer, logged, rp)
         \<and> Read rn ident = Inr (answer, logged, rn'))"
proof -
  from reopened_cache [OF assms, of True] obtain rp where rp: "reopen_cache mem True w = Inr rp"
    and rdp0: "\<forall>buf ident. Read (if True then rp else rp\<lparr>m_data := buf\<rparr>) ident =
          (case find_first 0 ws ident of
             None \<Rightarrow> Inr (None, [Warning ''Can't find offset in file'' ident],
                       if True then rp else rp\<lparr>m_data := buf\<rparr>)
           | Some (q, p) \<Rightarrow> Inr (Some p, [], if True then rp else rp\<lparr>m_data := p\<rparr>))"
    by blast
  have rdp: "Read rp ident =
          (case find_first 0 ws ident of
             None \<Rightarrow> Inr (None, [Warning ''Can't find offset in file'' ident], rp)
           | Some (q, p) \<Rightarrow> Inr (Some p, [], rp))" for ident
    using rdp0 [rule_format, of undefined ident] by (simp cong: option.case_cong)
  from reopened_cache [OF assms, of False] obtain rn where rn: "reopen_cache mem False w = Inr rn"
    and rdn0: "\<forall>buf ident. Read (if False then rn else rn\<lparr>m_data := buf\<rparr>) ident =
          (case find_first 0 ws ident of
             None \<Rightarrow> Inr (None, [Warning ''Can't find offset in file'' ident],
                       if False then rn else rn\<lparr>m_data := buf\<rparr>)
           | Some (q, p) \<Rightarrow> Inr (Some p, [], if False then rn else rn\<lparr>m_data := p\<rparr>))"
    by blast
  have rdn: "Read (rn\<lparr>m_data := buf\<rparr>) ident =
          (case find_first 0 ws ident of
             None \<Rightarrow> Inr (None, [Warning ''Can't find offset in file'' ident], rn\<lparr>m_data := buf\<rparr>)
           | Some (q, p) \<Rightarrow> Inr (Some p, [], rn\<lparr>m_data := p\<rparr>))" for buf ident
    using rdn0 [rule_format, of buf ident] by (simp cong: option.case_cong)
  have a: "\<exists>answer logged rp' rn'.
           Read rp ident = Inr (answer, logged, rp')
         \<and> Read (rn\<lparr>m_data := buf\<rparr>) ident = Inr (answer, logged, rn')
         \<and> rp' = rp" for buf
    unfolding rdp [of ident] rdn [of buf ident]
    by (cases "find_first 0 ws ident") auto
  have "rn\<lparr>m_data := m_data rn\<rparr> = rn" by simp
  then have b: "\<exists>answer logged rn'.
           Read rp ident = Inr (answer, logged, rp)
         \<and> Read rn ident = Inr (answer, logged, rn')"
    using a [of "m_data rn"] by auto
  show ?thesis using rp rn a b by blast
qed

lemma small_run:
  assumes "\<forall>w\<in>set ws. length (snd w) < 2 ^ 32 - 1"
    and "length (records ws) < 2 ^ 64" and "16 * length ws < 2 ^ 64"
  shows "\<exists>w. Write_all (OSMElementCache_Write_open name pl) ws = Inr w
     \<and> length (fw_data (m_storage w)) < 2 ^ 64
     \<and> length (fw_data (m_file (m_offsets (SaveOffsets w)))) < 2 ^ 64"
proof -
  from Write_all_succeeds [OF assms(1)] obtain w
    where w: "Write_all (OSMElementCache_Write_open name pl) ws = Inr w" by blast
  note wf = written_files [OF w]
  show ?thesis
    using w assms(2,3) by (simp add: wf length_elements_bytes length_layout)
qed

theorem payload_round_trip_witness:
  "\<exists>w r. Write_all (OSMElementCache_Write_open ''nodes'' False)
            [(1, [97, 108, 112, 104, 97]), (1000000, [98, 101, 116, 97]),
             (42, [103, 97, 109, 109, 97, 32, 100, 101, 108, 116, 97])] = Inr w
     \<and> reopen_cache 8 False w = Inr r
     \<and> Read r 42 = Inr (Some [103, 97, 109, 109, 97, 32, 100, 101, 108, 116, 97], [],
                         r\<lparr>m_data := [103, 97, 109, 109, 97, 32, 100, 101, 108, 116, 97]\<rparr>)
     \<and> Read (r\<lparr>m_data := [103, 97, 109, 109, 97, 32, 100, 101, 108, 116, 97]\<rparr>) 1
          = Inr (Some [97, 108, 112, 104, 97], [], r\<lparr>m_data := [97, 108, 112, 104, 97]\<rparr>)"
proof -
  let ?ws = "[(1, [97, 108, 112, 104, 97]), (1000000, [98, 101, 116, 97]),
             (42, [103, 97, 109, 109, 97, 32, 100, 101, 108, 116, 97])] :: (TKey \<times> byte list) list"
  have "\<forall>w\<in>set ?ws. length (snd w) < 2 ^ 32 - 1" "length (records ?ws) < 2 ^ 64"
    "16 * length ?ws < 2 ^ 64"
    by (simp_all add: length_record_bytes)
  from small_run [OF this, of "''nodes''" False] obtain w
    where w: "Write_all (OSMElementCache_Write_open ''nodes'' False) ?ws = Inr w"
      and b: "length (fw_data (m_storage w)) < 2 ^ 64"
        "length (fw_data (m_file (m_offsets (SaveOffsets w)))) < 2 ^ 64"
    by blast
  have m: "length ?ws \<le> 8" and d: "distinct (map fst ?ws)" by simp_all
  have i42: "(42, [103, 97, 109, 109, 97, 32, 100, 101, 108, 116, 97]) \<in> set ?ws"
    and i1: "(1, [97, 108, 112, 104, 97]) \<in> set ?ws" by simp_all
  from payload_round_trip [OF w b m d i42] obtain r where r: "reopen_cache 8 False w = Inr r"
    and r42: "Read r 42 = Inr (Some [103, 97, 109, 109, 97, 32, 100, 101, 108, 116, 97], [],
                         r\<lparr>m_data := [103, 97, 109, 109, 97, 32, 100, 101, 108, 116, 97]\<rparr>)"
    by blast
  from payload_round_trip [OF w b m d i1] obtain r' where r': "reopen_cache 8 False w = Inr r'"
    and r1: "\<forall>buf. Read (r'\<lparr>m_data := buf\<rparr>) 1 = Inr (Some [97, 108, 112, 104, 97], [], r'\<lparr>m_data := [97, 108, 112, 104, 97]\<rparr>)"
    by blast
  have "r' = r" using r r' by simp
  then have "Read (r\<lparr>m_data := [103, 97, 109, 109, 97, 32, 100, 101, 108, 116, 97]\<rparr>) 1
          = Inr (Some [97, 108, 112, 104, 97], [], r\<lparr>m_data := [97, 108, 112, 104, 97]\<rparr>)"
    using r1 by blast
  then show ?thesis using w r r42 by blast
qed

theorem duplicate_id_first_write_wins_witness:
  "\<exists>w r r'. Write_all (OSMElementCache_Write_open ''ways'' False)
            ([(5, [1])] @ (7, [65, 65]) # [(9, [])] @ (7, [66]) # []) = Inr w
     \<and> reopen_cache 8 False w = Inr r
     \<and> GetValueByKey (m_offsets r) 7 = Some 5
     \<and> Read r 7 = Inr (Some [65, 65], [], r')"
proof -
  let ?ws1 = "[(5, [1])] :: (TKey \<times> byte list) list"
  let ?ws2 = "[(9, [])] :: (TKey \<times> byte list) list"
  let ?ws = "?ws1 @ (7, [65, 65]) # ?ws2 @ (7, [66]) # []"
  have "\<forall>w\<in>set ?ws. length (snd w) < 2 ^ 32 - 1" "length (records ?ws) < 2 ^ 64"
    "16 * length ?ws < 2 ^ 64"
    by (simp_all add: length_record_bytes)
  from small_run [OF this, of "''ways''" False] obtain w
    where w: "Write_all (OSMElementCache_Write_open ''ways'' False) ?ws = Inr w"
      and b: "length (fw_data (m_storage w)) < 2 ^ 64"
        "length (fw_data (m_file (m_offsets (SaveOffsets w)))) < 2 ^ 64"
    by blast
  have m: "length ?ws \<le> 8" and n: "(7 :: TKey) \<notin> fst ` set ?ws1" by simp_all
  from duplicate_id_first_write_wins [OF w b m n, of False] obtain r r'
    where "reopen_cache 8 False w = Inr r"
      and "GetValueByKey (m_offsets r) 7 = Some (of_nat (length (records ?ws1)))"
      and "Read r 7 = Inr (Some [65, 65], [], r')"
    by blast
  moreover have "(of_nat (length (records ?ws1)) :: u64) = 5"
    by (simp add: length_record_bytes)
  ultimately show ?thesis using w by auto
qed

theorem preload_equivalence_witness:
  "\<exists>w rp rn answer logged rn'.
       Write_all (OSMElementCache_Write_open ''nodes'' False)
            [(1, [97, 108, 112, 104, 97]), (1000000, [98, 101, 116, 97]),
             (42, [103, 97, 109, 109, 97, 32, 100, 101, 108, 116, 97])] = Inr w
     \<and> reopen_cache 8 True w = Inr rp \<and> reopen_cache 8 False w = Inr rn
     \<and> Read rp 1000000 = Inr (answer, logged, rp)
     \<and> Read rn 1000000 = Inr (answer, logged, rn')"
proof -
  let ?ws = "[(1, [97, 108, 112, 104, 97]), (1000000, [98, 101, 116, 97]),
             (42, [103, 97, 109, 109, 97, 32, 100, 101, 108, 116, 97])] :: (TKey \<times> byte list) list"
  have "\<forall>w\<in>set ?ws. length (snd w) < 2 ^ 32 - 1" "length (records ?ws) < 2 ^ 64"
    "16 * length ?ws < 2 ^ 64"
    by (simp_all add: length_record_bytes)
  from small_run [OF this, of "''nodes''" False] obtain w
    where w: "Write_all (OSMElementCache_Write_open ''nodes'' False) ?ws = Inr w"
      and b: "length (fw_data (m_storage w)) < 2 ^ 64"
        "length (fw_data (m_file (m_offsets (SaveOffsets w)))) < 2 ^ 64"
    by blast
  have m: "length ?ws \<le> 8" by simp
  from preload_equivalence [OF w b m, of 1000000] w show ?thesis by blast
qed

section \<open>Properties of the point storages\<close>

subsection \<open>The range check of AddPoint\<close>

lemma sint_narrow: "sint (ucast (v :: u64) :: i32) = signed_take_bit 31 (sint v)"
proof -
  have "sint (ucast v :: i32) = signed_take_bit 31 (uint v)"
    by (simp add: signed_ucast_eq)
  also have "\<dots> = signed_take_bit 31 (sint v)"
    by (simp add: signed_take_bit_eq_iff_take_bit_eq sint_uint take_bit_signed_take_bit)
  finally show ?thesis .
qed

lemma sint_widen: "sint (scast (w :: i32) :: u64) = sint w"
proof -
  have r: "- (2 ^ 31) \<le> sint w" "sint w < 2 ^ 31"
    using sint_greater_eq [of w] sint_less [of w] by simp_all
  have "sint (scast w :: u64) = signed_take_bit 63 (sint w)"
    by (simp add: signed_scast_eq)
  also have "\<dots> = sint w"
    using r by (intro signed_take_bit_int_eq_self) simp_all
  finally show ?thesis .
qed

lemma narrow_widen_iff:
  "((scast (ucast (v :: u64) :: i32) :: u64) = v) \<longleftrightarrow> (- (2 ^ 31) \<le> sint v \<and> sint v < 2 ^ 31)"
proof -
  have "((scast (ucast v :: i32) :: u64) = v) \<longleftrightarrow> sint (scast (ucast v :: i32) :: u64) = sint v"
    by (rule word_eq_iff_signed)
  also have "\<dots> \<longleftrightarrow> signed_take_bit 31 (sint v) = sint v"
    by (simp add: sint_widen sint_narrow)
  also have "\<dots> \<longleftrightarrow> - (2 ^ 31) \<le> sint v \<and> sint v < 2 ^ 31"
    by (rule signed_take_bit_int_eq_self_iff)
  finally show ?thesis .
qed

lemma encode_point_cases:
  "encode_point ops lat lng =
    (case scaled ops lat of
       None \<Rightarrow> Inl BadConversion
     | Some a \<Rightarrow>
        (case scaled ops lng of
           None \<Rightarrow> Inl BadConversion
         | Some b \<Rightarrow>
            if \<not> in_int32 a then Inl (CheckFailed ''Latitude is out of 32bit boundary!'')
            else if \<not> in_int32 b then Inl (CheckFailed ''Longtitude is out of 32bit boundary!'')
            else Inr \<lparr>ll_lat = ucast a, ll_lon = ucast b\<rparr>))"
  by (simp add: encode_point_def scaled_def in_int32_def Let_def narrow_widen_iff
      split: option.splits)



lemma length_LatLon_bytes: "length (LatLon_bytes ll) = 8"
  by (simp add: LatLon_bytes_def length_u32_bytes)



lemma RawFile_AddPoint_eq:
  "RawFile_AddPoint ops rf ident lat lng =
    (case encode_point ops lat lng of Inl e \<Rightarrow> Inl e
     | Inr ll \<Rightarrow> Inr (IncProcessedPoint (rf\<lparr>rf_file :=
          FileWriter_Write (FileWriter_Seek (rf_file rf) (ident * 8)) (LatLon_bytes ll)\<rparr>)))"
  by (simp add: RawFile_AddPoint_def)

lemma RawMem_AddPoint_eq:
  "RawMem_AddPoint ops rm ident lat lng =
    (case encode_point ops lat lng of Inl e \<Rightarrow> Inl e
     | Inr ll \<Rightarrow> Inr (IncProcessedPoint (rm\<lparr>rm_data := (rm_data rm)[unat ident := ll]\<rparr>)))"
  by (simp add: RawMem_AddPoint_def)


lemma length_LatLonPos_bytes: "length (LatLonPos_bytes r) = 16"
  by (simp add: LatLonPos_bytes_def length_u64_bytes length_u32_bytes)

lemma scaled_exact_whole:
  "- (2 ^ 63) \<le> n * 10000000 \<Longrightarrow> n * 10000000 < 2 ^ 63 \<Longrightarrow>
   scaled exact_ops (of_int n) = Some (of_int (n * 10000000))"
proof -
  assume r: "- (2 ^ 63) \<le> n * 10000000" "n * 10000000 < 2 ^ 63"
  have "(of_int n :: real) * 10000000 = of_int (n * 10000000)" by simp
  then have f: "\<lfloor>(of_int n :: real) * 10000000\<rfloor> = n * 10000000"
    and c: "\<lceil>(of_int n :: real) * 10000000\<rceil> = n * 10000000"
    by (simp_all only: floor_of_int ceiling_of_int)
  show ?thesis
    using r unfolding scaled_def exact_ops_def by (simp add: Let_def f c)
qed

lemma scaled_exact_numeral:
  "scaled exact_ops 300 = Some 3000000000"
  "scaled exact_ops 0 = Some 0"
  "scaled exact_ops 1 = Some 10000000"
  "scaled exact_ops 55 = Some 550000000"
  "scaled exact_ops 37 = Some 370000000"
  using scaled_exact_whole [of 300] scaled_exact_whole [of 0] scaled_exact_whole [of 1]
    scaled_exact_whole [of 55] scaled_exact_whole [of 37]
  by simp_all

lemma in_int32_numeral:
  "\<not> in_int32 3000000000" "in_int32 0" "in_int32 10000000" "in_int32 550000000" "in_int32 370000000"
  by (simp_all add: in_int32_def)

lemma length_RawMem_Write_open: "length (rm_data (RawMem_Write_open name)) = kArraySize"
  by (simp add: RawMem_Write_open_def)



subsection \<open>The file of RawMemPointStorage\<close>

lemma length_LatLon_image: "length (concat (map LatLon_bytes xs)) = 8 * length xs"
  by (induction xs) (auto simp: length_LatLon_bytes)

lemma RawMem_AddPoint_keeps:
  "RawMem_AddPoint ops st ident lat lng = Inr st' \<Longrightarrow>
   length (rm_data st') = length (rm_data st) \<and> rm_file st' = rm_file st"
  by (auto simp: RawMem_AddPoint_def IncProcessedPoint_def split: sum.splits)

lemma RawMem_AddPoint_all_keeps:
  "RawMem_AddPoint_all ops st pts = Inr st' \<Longrightarrow>
   length (rm_data st') = length (rm_data st) \<and> rm_file st' = rm_file st"
proof (induction pts arbitrary: st)
  case Nil then show ?case by simp
next
  case (Cons p pts)
  from Cons.prems obtain st1 where 1: "RawMem_AddPoint ops st (fst p) (fst (snd p)) (snd (snd p)) = Inr st1"
    and 2: "RawMem_AddPoint_all ops st1 pts = Inr st'"
    by (auto split: sum.splits)
  show ?case using Cons.IH [OF 2] RawMem_AddPoint_keeps [OF 1] by simp
qed

text \<open>
  Claim C7, amended. After any run of \<open>AddPoint\<close> calls on a write-mode
  \<open>RawMemPointStorage\<close>, the file written at destruction is the image of the whole
  array, one contiguous blob of \<open>(2^32 - 1) * 8\<close> bytes: the array has \<open>0xFFFFFFFF\<close>
  entries, not \<open>2^32\<close>.
\<close>

theorem RawMem_file_size:
  assumes "RawMem_AddPoint_all ops (RawMem_Write_open name) pts = Inr st"
  shows "length (rm_data st) = 2 ^ 32 - 1
    \<and> fw_data (rm_file (RawMem_DoneStorage_Write st)) = concat (map LatLon_bytes (rm_data st))
    \<and> length (fw_data (rm_file (RawMem_DoneStorage_Write st))) = (2 ^ 32 - 1) * 8"
proof -
  have k: "length (rm_data st) = kArraySize" and f: "rm_file st = FileWriter_open"
    using RawMem_AddPoint_all_keeps [OF assms]
    by (simp_all add: length_RawMem_Write_open) (simp add: RawMem_Write_open_def)
  have d: "fw_data (rm_file (RawMem_DoneStorage_Write st)) = concat (map LatLon_bytes (rm_data st))"
    by (simp add: RawMem_DoneStorage_Write_def f FileWriter_Write_def FileWriter_open_def)
  have "length (concat (map LatLon_bytes (rm_data st))) = 8 * kArraySize"
    unfolding length_LatLon_image k ..
  then show ?thesis using k d by (simp add: kArraySize_def)
qed

theorem RawMem_file_size_counterexample:
  "length (fw_data (rm_file (RawMem_DoneStorage_Write (RawMem_Write_open ''nodes'')))) \<noteq> 2 ^ 32 * 8"
proof -
  have "rm_file (RawMem_Write_open ''nodes'') = FileWriter_open"
    by (simp add: RawMem_Write_open_def)
  then have "fw_data (rm_file (RawMem_DoneStorage_Write (RawMem_Write_open ''nodes'')))
      = concat (map LatLon_bytes (rm_data (RawMem_Write_open ''nodes'')))"
    by (simp add: RawMem_DoneStorage_Write_def FileWriter_Write_def FileWriter_open_def)
  then have "length (fw_data (rm_file (RawMem_DoneStorage_Write (RawMem_Write_open ''nodes''))))
      = 8 * kArraySize"
    by (simp only: length_LatLon_image length_RawMem_Write_open)
  then show ?thesis by (simp add: kArraySize_def)
qed

theorem RawMem_file_size_witness:
  "\<exists>st. RawMem_AddPoint_all exact_ops (RawMem_Write_open ''nodes'') [(5, 55, 37)] = Inr st
     \<and> length (fw_data (rm_file (RawMem_DoneStorage_Write st))) = 34359738360"
proof -
  have "encode_point exact_ops 55 37 = Inr \<lparr>ll_lat = ucast (550000000 :: u64), ll_lon = ucast (370000000 :: u64)\<rparr>"
    by (simp add: encode_point_cases scaled_exact_numeral in_int32_numeral)
  then obtain st1 where "RawMem_AddPoint exact_ops (RawMem_Write_open ''nodes'') 5 55 37 = Inr st1"
    by (simp add: RawMem_AddPoint_eq)
  then have r: "RawMem_AddPoint_all exact_ops (RawMem_Write_open ''nodes'') [(5, 55, 37)] = Inr st1"
    by simp
  from RawMem_file_size [OF r]
  have "length (fw_data (rm_file (RawMem_DoneStorage_Write st1))) = (2 ^ 32 - 1) * 8"
    by (rule conjunct2 [THEN conjunct2])
  then have "length (fw_data (rm_file (RawMem_DoneStorage_Write st1))) = 34359738360" by simp
  with r show ?thesis by blast
qed

subsection \<open>GetPoint of the dense storages\<close>

lemma LatLon_at_Cons_0: "LatLon_at (LatLon_bytes x @ rest) 0 = x"
  by (cases x) (simp add: LatLon_at_def LatLon_bytes_def length_u32_bytes bytes_u32_u32_bytes)

lemma LatLon_at_Cons_Suc: "LatLon_at (LatLon_bytes x @ rest) (Suc i) = LatLon_at rest i"
  by (simp add: LatLon_at_def length_LatLon_bytes add.commute)

lemma LatLon_at_image:
  "i < length xs \<Longrightarrow> LatLon_at (concat (map LatLon_bytes xs) @ rest) i = xs ! i"
proof (induction xs arbitrary: i)
  case Nil then show ?case by simp
next
  case (Cons x xs)
  then show ?case
    by (cases i) (simp_all add: LatLon_at_Cons_0 LatLon_at_Cons_Suc)
qed

lemma decode_LatLon_image: "map (LatLon_at (concat (map LatLon_bytes xs))) [0..<length xs] = xs"
  using LatLon_at_image [of _ xs "[]"] by (intro nth_equalityI) simp_all

lemma RawMem_reopen_written:
  assumes "length (rm_data w) = kArraySize" and "rm_file w = FileWriter_open"
  shows "RawMem_reopen w =
     Inr \<lparr>m_processedPoint = 0,
          rm_file = FileReader_open (concat (map LatLon_bytes (rm_data w))),
          rm_data = rm_data w\<rparr>"
proof -
  have d: "fw_data (rm_file (RawMem_DoneStorage_Write w)) = concat (map LatLon_bytes (rm_data w))"
    by (simp add: RawMem_DoneStorage_Write_def assms(2) FileWriter_Write_def FileWriter_open_def)
  have l: "length (concat (map LatLon_bytes (rm_data w))) = kArraySize * 8"
    by (simp add: length_LatLon_image assms(1))
  have r: "FileReader_Read (FileReader_open (concat (map LatLon_bytes (rm_data w)))) 0 (kArraySize * 8)
      = Inr (concat (map LatLon_bytes (rm_data w)))"
    by (simp add: FileReader_Read_def FileReader_open_def l)
  have "map (LatLon_at (concat (map LatLon_bytes (rm_data w)))) [0..<kArraySize] = rm_data w"
    using decode_LatLon_image [of "rm_data w"] by (simp add: assms(1))
  then show ?thesis
    by (simp add: RawMem_reopen_def RawMem_Read_open_def d r)
qed

lemma RawMem_AddPoint_other:
  "RawMem_AddPoint ops st ident lat lng = Inr st' \<Longrightarrow> i \<noteq> unat ident \<Longrightarrow>
   rm_data st' ! i = rm_data st ! i"
  by (auto simp: RawMem_AddPoint_def IncProcessedPoint_def split: sum.splits)

lemma RawMem_AddPoint_all_other:
  "RawMem_AddPoint_all ops st pts = Inr st' \<Longrightarrow> i \<notin> unat ` fst ` set pts \<Longrightarrow>
   rm_data st' ! i = rm_data st ! i"
proof (induction pts arbitrary: st)
  case Nil then show ?case by simp
next
  case (Cons p pts)
  from Cons.prems(1) obtain st1 where 1: "RawMem_AddPoint ops st (fst p) (fst (snd p)) (snd (snd p)) = Inr st1"
    and 2: "RawMem_AddPoint_all ops st1 pts = Inr st'"
    by (auto split: sum.splits)
  have "i \<noteq> unat (fst p)" "i \<notin> unat ` fst ` set pts" using Cons.prems(2) by auto
  then show ?case using Cons.IH [OF 2] RawMem_AddPoint_other [OF 1] by simp
qed



lemma take_LatLon_image:
  "take (8 * n) (concat (map LatLon_bytes xs)) = concat (map LatLon_bytes (take n xs))"
proof (induction xs arbitrary: n)
  case Nil show ?case by simp
next
  case (Cons x xs)
  show ?case
  proof (cases n)
    case 0 then show ?thesis by simp
  next
    case (Suc m)
    have "8 * Suc m - 8 = 8 * m" by simp
    then show ?thesis using Cons [of m] Suc by (simp add: length_LatLon_bytes)
  qed
qed

lemma drop_LatLon_image:
  "drop (8 * n) (concat (map LatLon_bytes xs)) = concat (map LatLon_bytes (drop n xs))"
proof (induction xs arbitrary: n)
  case Nil show ?case by simp
next
  case (Cons x xs)
  show ?case
  proof (cases n)
    case 0 then show ?thesis by simp
  next
    case (Suc m)
    have "8 * Suc m - 8 = 8 * m" by simp
    then show ?thesis using Cons [of m] Suc by (simp add: length_LatLon_bytes)
  qed
qed

lemma LatLon_bytes_zero: "LatLon_bytes \<lparr>ll_lat = 0, ll_lon = 0\<rparr> = replicate 8 0"
proof -
  have "replicate 8 (0 :: byte) = [0, 0, 0, 0, 0, 0, 0, 0]" by (simp add: eval_nat_numeral)
  then show ?thesis by (simp add: LatLon_bytes_def u32_bytes_def le_bytes_numeral)
qed

lemma zero_LatLon_image:
  "concat (replicate n (LatLon_bytes \<lparr>ll_lat = 0, ll_lon = 0\<rparr>)) = replicate (8 * n) 0"
proof (induction n)
  case 0 show ?case by simp
next
  case (Suc n)
  have "replicate (8 * Suc n) (0 :: byte) = replicate 8 0 @ replicate (8 * n) 0"
    by (simp add: replicate_add [symmetric])
  then show ?case using Suc by (simp add: LatLon_bytes_zero)
qed

lemma write_into_image:
  assumes d: "fw_data w = concat (map LatLon_bytes arr)" and p: "fw_pos w = 8 * j"
  defines "A \<equiv> arr @ replicate (j - length arr) \<lparr>ll_lat = 0, ll_lon = 0\<rparr>"
  shows "fw_data (FileWriter_Write w (LatLon_bytes ll))
     = concat (map LatLon_bytes (take j A @ ll # drop (Suc j) A))"
proof -
  have pad: "fw_data w @ replicate (fw_pos w - length (fw_data w)) 0 = concat (map LatLon_bytes A)"
  proof -
    have "8 * j - 8 * length arr = 8 * (j - length arr)" by simp
    then show ?thesis
      by (simp add: d p A_def length_LatLon_image zero_LatLon_image)
  qed
  have "8 * j + 8 = 8 * Suc j" by simp
  then have dr: "drop (8 * j + 8) (concat (map LatLon_bytes A)) = concat (map LatLon_bytes (drop (Suc j) A))"
    by (simp only: drop_LatLon_image)
  show ?thesis
    unfolding FileWriter_Write_def Let_def pad
    by (simp add: p length_LatLon_bytes take_LatLon_image dr)
qed

lemma offset_aligned: "\<exists>j. unat (ident * 8 :: u64) = 8 * j"
proof -
  have "unat (ident * 8) = unat ident * 8 mod 2 ^ 64"
    by (simp add: unat_word_ariths)
  moreover have "(8 :: nat) dvd unat ident * 8 mod 2 ^ 64"
    by (rule dvd_mod) simp_all
  ultimately show ?thesis by (auto simp: dvd_def)
qed

lemma offset_small: "unat ident < 2 ^ 61 \<Longrightarrow> unat (ident * 8 :: u64) = 8 * unat ident"
  by (simp add: unat_word_ariths)

lemma slot_of_image:
  "i < length xs \<Longrightarrow> take 8 (drop (8 * i) (concat (map LatLon_bytes xs))) = LatLon_bytes (xs ! i)"
proof -
  assume i: "i < length xs"
  have "drop i xs = xs ! i # drop (Suc i) xs" using i by (simp add: Cons_nth_drop_Suc)
  then show ?thesis by (simp add: drop_LatLon_image length_LatLon_bytes)
qed

lemma RawFile_AddPoint_slots:
  assumes img: "fw_data (rf_file st) = concat (map LatLon_bytes arr)"
    and add: "RawFile_AddPoint ops st ident lat lng = Inr st'"
  shows "\<exists>arr'. fw_data (rf_file st') = concat (map LatLon_bytes arr') \<and> length arr \<le> length arr'
     \<and> (\<forall>i<length arr'. 8 * i \<noteq> unat (ident * 8) \<longrightarrow>
           arr' ! i = (if i < length arr then arr ! i else \<lparr>ll_lat = 0, ll_lon = 0\<rparr>))
     \<and> (\<forall>i. 8 * i = unat (ident * 8) \<longrightarrow> i < length arr' \<and> encode_point ops lat lng = Inr (arr' ! i))"
proof -
  from add obtain ll where e: "encode_point ops lat lng = Inr ll"
    by (auto simp: RawFile_AddPoint_eq split: sum.splits)
  obtain j where j: "unat (ident * 8) = 8 * j" using offset_aligned by blast
  define w where "w = FileWriter_Seek (rf_file st) (ident * 8)"
  have w: "fw_data w = concat (map LatLon_bytes arr)" "fw_pos w = 8 * j"
    by (simp_all add: w_def FileWriter_Seek_def img j)
  define A where "A = arr @ replicate (j - length arr) \<lparr>ll_lat = 0, ll_lon = 0\<rparr>"
  define arr' where "arr' = take j A @ ll # drop (Suc j) A"
  have st': "rf_file st' = FileWriter_Write w (LatLon_bytes ll)"
    using add by (auto simp: RawFile_AddPoint_eq e w_def IncProcessedPoint_def)
  have d: "fw_data (rf_file st') = concat (map LatLon_bytes arr')"
    unfolding st' arr'_def A_def by (rule write_into_image [OF w])
  have lA: "length A = max (length arr) j" by (simp add: A_def)
  have l': "length arr' = max (Suc j) (length A)" by (simp add: arr'_def lA)
  have nA: "A ! i = (if i < length arr then arr ! i else \<lparr>ll_lat = 0, ll_lon = 0\<rparr>)" if "i < length A" for i
    using that by (simp add: A_def nth_append)
  have other: "arr' ! i = (if i < length arr then arr ! i else \<lparr>ll_lat = 0, ll_lon = 0\<rparr>)"
    if i: "i < length arr'" "i \<noteq> j" for i
  proof (cases "i < j")
    case True
    then have "arr' ! i = A ! i" using lA by (simp add: arr'_def nth_append)
    then show ?thesis using nA [of i] True lA by simp
  next
    case False
    then have gt: "j < i" using i(2) by simp
    then have iA: "i < length A" using i(1) l' by simp
    have "min (length A) j = j" using iA gt by simp
    then have "arr' ! i = (ll # drop (Suc j) A) ! (i - j)"
      using gt by (simp add: arr'_def nth_append)
    also have "\<dots> = A ! i"
    proof -
      obtain n where n: "i - j = Suc n" using gt by (cases "i - j") simp_all
      then have "Suc (j + n) = i" using gt by simp
      then show ?thesis using iA by (simp add: n)
    qed
    finally show ?thesis using nA [OF iA] by simp
  qed
  have jl: "j < length arr'" using l' by simp
  have "min (length A) j = j" using lA by simp
  then have at: "arr' ! j = ll" by (simp add: arr'_def nth_append)
  show ?thesis
  proof (intro exI [of _ arr'] conjI allI impI)
    show "fw_data (rf_file st') = concat (map LatLon_bytes arr')" by (rule d)
    show "length arr \<le> length arr'" using l' lA by simp
  next
    fix i assume "i < length arr'" "8 * i \<noteq> unat (ident * 8)"
    then show "arr' ! i = (if i < length arr then arr ! i else \<lparr>ll_lat = 0, ll_lon = 0\<rparr>)"
      using other [of i] j by auto
  next
    fix i assume "8 * i = unat (ident * 8)"
    then have "i = j" using j by simp
    then show "i < length arr'" "encode_point ops lat lng = Inr (arr' ! i)"
      using jl at e by simp_all
  qed
qed

lemma RawFile_AddPoint_all_slots:
  "fw_data (rf_file st) = concat (map LatLon_bytes arr) \<Longrightarrow>
   RawFile_AddPoint_all ops st pts = Inr st' \<Longrightarrow>
   \<exists>arr'. fw_data (rf_file st') = concat (map LatLon_bytes arr') \<and> length arr \<le> length arr'
     \<and> (\<forall>i<length arr'. (\<forall>p\<in>set pts. 8 * i \<noteq> unat (fst p * 8)) \<longrightarrow>
           arr' ! i = (if i < length arr then arr ! i else \<lparr>ll_lat = 0, ll_lon = 0\<rparr>))"
proof (induction pts arbitrary: st arr)
  case Nil
  then show ?case by (intro exI [of _ arr]) simp
next
  case (Cons p pts)
  from Cons.prems(2) obtain st1 where 1: "RawFile_AddPoint ops st (fst p) (fst (snd p)) (snd (snd p)) = Inr st1"
    and 2: "RawFile_AddPoint_all ops st1 pts = Inr st'"
    by (auto split: sum.splits)
  from RawFile_AddPoint_slots [OF Cons.prems(1) 1] obtain arr1 where
    a1: "fw_data (rf_file st1) = concat (map LatLon_bytes arr1)" "length arr \<le> length arr1"
    and o1: "\<And>i. i < length arr1 \<Longrightarrow> 8 * i \<noteq> unat (fst p * 8) \<Longrightarrow>
           arr1 ! i = (if i < length arr then arr ! i else \<lparr>ll_lat = 0, ll_lon = 0\<rparr>)"
    by blast
  from Cons.IH [OF a1(1) 2] obtain arr' where
    a': "fw_data (rf_file st') = concat (map LatLon_bytes arr')" "length arr1 \<le> length arr'"
    and o': "\<And>i. i < length arr' \<Longrightarrow> (\<forall>p\<in>set pts. 8 * i \<noteq> unat (fst p * 8)) \<Longrightarrow>
           arr' ! i = (if i < length arr1 then arr1 ! i else \<lparr>ll_lat = 0, ll_lon = 0\<rparr>)"
    by blast
  show ?case
  proof (intro exI [of _ arr'] conjI allI impI)
    show "fw_data (rf_file st') = concat (map LatLon_bytes arr')" by (rule a'(1))
    show "length arr \<le> length arr'" using a1(2) a'(2) by simp
  next
    fix i assume i: "i < length arr'" "\<forall>q\<in>set (p # pts). 8 * i \<noteq> unat (fst q * 8)"
    then have "arr' ! i = (if i < length arr1 then arr1 ! i else \<lparr>ll_lat = 0, ll_lon = 0\<rparr>)"
      using o' [of i] by simp
    moreover have "i < length arr1 \<Longrightarrow> arr1 ! i = (if i < length arr then arr ! i else \<lparr>ll_lat = 0, ll_lon = 0\<rparr>)"
      using o1 [of i] i(2) by simp
    ultimately show "arr' ! i = (if i < length arr then arr ! i else \<lparr>ll_lat = 0, ll_lon = 0\<rparr>)"
      using a1(2) by auto
  qed
qed

lemma RawFile_GetPoint_image:
  assumes "fr_data (rf_file r) = concat (map LatLon_bytes arr)"
    and "unat (ident * 8) = 8 * i" and "i < length arr"
  shows "RawFile_GetPoint ops r ident = Inr (decode_point ops ident (arr ! i))"
proof -
  have "8 * i + 8 \<le> length (concat (map LatLon_bytes arr))"
    using assms(3) by (simp add: length_LatLon_image)
  then show ?thesis
    using slot_of_image [OF assms(3)] LatLon_at_Cons_0 [of "arr ! i" "[]"]
    by (simp add: RawFile_GetPoint_def FileReader_Read_def assms(1,2))
qed













subsection \<open>The first record of an id in MapFilePointStorage\<close>

lemma LatLonPos_of_bytes_image: "LatLonPos_of_bytes (LatLonPos_bytes r @ rest) = r"
  by (cases r) (simp add: LatLonPos_of_bytes_def LatLonPos_bytes_def length_u64_bytes
      length_u32_bytes bytes_u64_u64_bytes bytes_u32_u32_bytes)

lemma length_LatLonPos_image: "length (concat (map LatLonPos_bytes rs)) = 16 * length rs"
  by (induction rs) (auto simp: length_LatLonPos_bytes)

lemma emplace_apply:
  "emplace m k v x = (case m x of Some y \<Rightarrow> Some y | None \<Rightarrow> if x = k then Some v else None)"
  by (cases "m k") (auto simp: emplace_def split: option.splits)

lemma emplace_fold_first:
  "foldl (\<lambda>m r. emplace m (llp_pos r) (llp_lat r, llp_lon r)) m rs ident =
     (case m ident of
        Some v \<Rightarrow> Some v
      | None \<Rightarrow> (case find (\<lambda>r. llp_pos r = ident) rs of
                   None \<Rightarrow> None
                 | Some r \<Rightarrow> Some (llp_lat r, llp_lon r)))"
proof (induction rs arbitrary: m)
  case Nil show ?case by (simp split: option.splits)
next
  case (Cons r rs)
  have "foldl (\<lambda>m r. emplace m (llp_pos r) (llp_lat r, llp_lon r)) m (r # rs) ident
      = foldl (\<lambda>m r. emplace m (llp_pos r) (llp_lat r, llp_lon r))
          (emplace m (llp_pos r) (llp_lat r, llp_lon r)) rs ident"
    by simp
  also have "\<dots> = (case emplace m (llp_pos r) (llp_lat r, llp_lon r) ident of
        Some v \<Rightarrow> Some v
      | None \<Rightarrow> (case find (\<lambda>r. llp_pos r = ident) rs of
                   None \<Rightarrow> None
                 | Some r \<Rightarrow> Some (llp_lat r, llp_lon r)))"
    by (rule Cons.IH)
  also have "\<dots> = (case m ident of
        Some v \<Rightarrow> Some v
      | None \<Rightarrow> (case find (\<lambda>r. llp_pos r = ident) (r # rs) of
                   None \<Rightarrow> None
                 | Some r \<Rightarrow> Some (llp_lat r, llp_lon r)))"
    by (auto simp: emplace_apply split: option.splits)
  finally show ?case .
qed

lemma MapFile_loop_image:
  "MapFile_InitStorage_loop (FileReader_open (concat (map LatLonPos_bytes pre) @ concat (map LatLonPos_bytes rs)))
      (16 * (length pre + length rs)) (16 * length pre) m
   = Inr (foldl (\<lambda>m r. emplace m (llp_pos r) (llp_lat r, llp_lon r)) m rs)"
proof (induction rs arbitrary: pre m)
  case Nil
  show ?case by (subst MapFile_InitStorage_loop.simps) simp
next
  case (Cons r rs)
  let ?file = "FileReader_open (concat (map LatLonPos_bytes pre) @ concat (map LatLonPos_bytes (r # rs)))"
  have rd: "FileReader_Read ?file (16 * length pre) 16 = Inr (LatLonPos_bytes r)"
    by (simp add: FileReader_Read_def FileReader_open_def length_LatLonPos_image length_LatLonPos_bytes)
  have f: "?file = FileReader_open (concat (map LatLonPos_bytes (pre @ [r])) @ concat (map LatLonPos_bytes rs))"
    by simp
  have n: "16 * (length pre + length (r # rs)) = 16 * (length (pre @ [r]) + length rs)"
    "16 * length pre + 16 = 16 * length (pre @ [r])" by simp_all
  have lt: "16 * length pre < 16 * (length pre + length (r # rs))" by simp
  show ?case
    apply (subst MapFile_InitStorage_loop.simps)
    apply (simp only: lt if_True rd sum.case Let_def)
    apply (simp only: n f Cons.IH)
    apply (simp add: LatLonPos_of_bytes_image [of r "[]", simplified])
    done
qed

lemma MapFile_AddPoint_image:
  assumes "fw_pos (mf_file st) = length (fw_data (mf_file st))"
    and "MapFile_AddPoint ops st ident lat lng = Inr st'"
  shows "\<exists>ll. encode_point ops lat lng = Inr ll
    \<and> fw_data (mf_file st') = fw_data (mf_file st)
         @ LatLonPos_bytes \<lparr>llp_pos = ident, llp_lat = ll_lat ll, llp_lon = ll_lon ll\<rparr>
    \<and> fw_pos (mf_file st') = length (fw_data (mf_file st'))"
  using assms
  by (auto simp: MapFile_AddPoint_def IncProcessedPoint_def FileWriter_Write_at_end
      split: sum.splits)

lemma MapFile_AddPoint_all_image:
  "fw_pos (mf_file st) = length (fw_data (mf_file st)) \<Longrightarrow>
   MapFile_AddPoint_all ops st pts = Inr st' \<Longrightarrow>
   \<exists>recs. fw_data (mf_file st') = fw_data (mf_file st) @ concat (map LatLonPos_bytes recs)
     \<and> list_all2 (\<lambda>p r. llp_pos r = fst p
          \<and> encode_point ops (fst (snd p)) (snd (snd p)) = Inr \<lparr>ll_lat = llp_lat r, ll_lon = llp_lon r\<rparr>)
          pts recs"
proof (induction pts arbitrary: st)
  case Nil
  then show ?case by simp
next
  case (Cons p pts)
  from Cons.prems(2) obtain st1 where 1: "MapFile_AddPoint ops st (fst p) (fst (snd p)) (snd (snd p)) = Inr st1"
    and 2: "MapFile_AddPoint_all ops st1 pts = Inr st'"
    by (auto split: sum.splits)
  from MapFile_AddPoint_image [OF Cons.prems(1) 1] obtain ll where
    e: "encode_point ops (fst (snd p)) (snd (snd p)) = Inr ll"
    and d: "fw_data (mf_file st1) = fw_data (mf_file st)
         @ LatLonPos_bytes \<lparr>llp_pos = fst p, llp_lat = ll_lat ll, llp_lon = ll_lon ll\<rparr>"
    and q: "fw_pos (mf_file st1) = length (fw_data (mf_file st1))"
    by blast
  from Cons.IH [OF q 2] obtain recs where
    r: "fw_data (mf_file st') = fw_data (mf_file st1) @ concat (map LatLonPos_bytes recs)"
    and a: "list_all2 (\<lambda>p r. llp_pos r = fst p
          \<and> encode_point ops (fst (snd p)) (snd (snd p)) = Inr \<lparr>ll_lat = llp_lat r, ll_lon = llp_lon r\<rparr>)
          pts recs"
    by blast
  show ?case
    using r a e unfolding d
    by (intro exI [of _ "\<lparr>llp_pos = fst p, llp_lat = ll_lat ll, llp_lon = ll_lon ll\<rparr> # recs"]) simp
qed

lemma find_first_record:
  assumes "list_all2 (\<lambda>p r. llp_pos r = fst p \<and> Q p r) (before @ (ident, lat, lng) # later) recs"
    and "ident \<notin> fst ` set before"
  shows "\<exists>r. find (\<lambda>r. llp_pos r = ident) recs = Some r \<and> Q (ident, lat, lng) r"
  using assms
proof (induction before arbitrary: recs)
  case Nil
  then show ?case by (auto simp: list_all2_Cons1)
next
  case (Cons p before)
  from Cons.prems(1) obtain r recs' where recs: "recs = r # recs'" "llp_pos r = fst p"
    and rest: "list_all2 (\<lambda>p r. llp_pos r = fst p \<and> Q p r) (before @ (ident, lat, lng) # later) recs'"
    by (auto simp: list_all2_Cons1)
  have "fst p \<noteq> ident" "ident \<notin> fst ` set before" using Cons.prems(2) by auto
  then show ?case using Cons.IH [OF rest] recs by simp
qed

lemma MapFile_reopen_written:
  assumes run: "MapFile_AddPoint_all ops (MapFile_Write_open name) pts = Inr w"
    and big: "length (fw_data (mf_file w)) < 2 ^ 64"
  shows "\<exists>(recs :: LatLonPos list) r. MapFile_reopen w = Inr r
     \<and> list_all2 (\<lambda>p r. llp_pos r = fst p
          \<and> encode_point ops (fst (snd p)) (snd (snd p)) = Inr \<lparr>ll_lat = llp_lat r, ll_lon = llp_lon r\<rparr>)
          pts recs
     \<and> (\<forall>ident. m_map r ident = (case find (\<lambda>r. llp_pos r = ident) recs of
                   None \<Rightarrow> None | Some r \<Rightarrow> Some (llp_lat r, llp_lon r)))"
proof -
  have p: "fw_pos (mf_file (MapFile_Write_open name)) = length (fw_data (mf_file (MapFile_Write_open name)))"
    by (simp add: MapFile_Write_open_def FileWriter_open_def)
  from MapFile_AddPoint_all_image [OF p run] obtain recs where
    d: "fw_data (mf_file w) = concat (map LatLonPos_bytes recs)"
    and a: "list_all2 (\<lambda>p r. llp_pos r = fst p
          \<and> encode_point ops (fst (snd p)) (snd (snd p)) = Inr \<lparr>ll_lat = llp_lat r, ll_lon = llp_lon r\<rparr>)
          pts recs"
    by (auto simp: MapFile_Write_open_def FileWriter_open_def)
  have len: "length (fw_data (mf_file w)) = 16 * length recs" by (simp add: d length_LatLonPos_image)
  have "16 * length recs < 2 ^ 64" using big len by simp
  then have u: "unat (of_nat (16 * length recs) :: u64) = 16 * length recs"
    by (rule unat_of_nat_u64)
  have loop: "MapFile_InitStorage_loop (FileReader_open (concat (map LatLonPos_bytes recs)))
      (16 * length recs) 0 Map.empty
     = Inr (foldl (\<lambda>m r. emplace m (llp_pos r) (llp_lat r, llp_lon r)) Map.empty recs)"
    using MapFile_loop_image [of "[]" recs Map.empty] by simp
  define r where "r = \<lparr>m_processedPoint = 0, mf_file = FileReader_open (concat (map LatLonPos_bytes recs)),
      m_map = foldl (\<lambda>m r. emplace m (llp_pos r) (llp_lat r, llp_lon r)) Map.empty recs\<rparr>"
  have ro: "MapFile_reopen w = Inr r"
    using loop u
    by (simp add: MapFile_reopen_def MapFile_Read_open_def d Let_def FileReader_Size_def
        length_LatLonPos_image r_def FileReader_open_def)
  have "m_map r ident = (case find (\<lambda>r. llp_pos r = ident) recs of
                   None \<Rightarrow> None | Some r \<Rightarrow> Some (llp_lat r, llp_lon r))" for ident
    by (simp add: r_def emplace_fold_first)
  then have m: "\<forall>ident. m_map r ident = (case find (\<lambda>r. llp_pos r = ident) recs of
                   None \<Rightarrow> None | Some r \<Rightarrow> Some (llp_lat r, llp_lon r))" by simp
  show ?thesis
    by (rule exI [of _ recs], rule exI [of _ r]) (simp only: ro a m simp_thms)
qed

lemma RawMem_AddPoint_all_append:
  "RawMem_AddPoint_all ops st (xs @ ys) =
     (case RawMem_AddPoint_all ops st xs of Inl e \<Rightarrow> Inl e | Inr s \<Rightarrow> RawMem_AddPoint_all ops s ys)"
  by (induction xs arbitrary: st) (auto split: sum.splits)

lemma RawFile_AddPoint_all_append:
  "RawFile_AddPoint_all ops st (xs @ ys) =
     (case RawFile_AddPoint_all ops st xs of Inl e \<Rightarrow> Inl e | Inr s \<Rightarrow> RawFile_AddPoint_all ops s ys)"
  by (induction xs arbitrary: st) (auto split: sum.splits)

lemma RawMem_AddPoint_stores:
  "RawMem_AddPoint ops st ident lat lng = Inr st' \<Longrightarrow> unat ident < length (rm_data st) \<Longrightarrow>
   \<exists>ll. encode_point ops lat lng = Inr ll \<and> unat ident < length (rm_data st')
     \<and> rm_data st' ! unat ident = ll"
  by (auto simp: RawMem_AddPoint_def IncProcessedPoint_def split: sum.splits)

lemma RawMem_last_write:
  assumes run: "RawMem_AddPoint_all ops st (earlier @ (ident, lat, lng) # after) = Inr st'"
    and last: "ident \<notin> fst ` set after"
    and inside: "unat ident < length (rm_data st)"
  shows "\<exists>ll. encode_point ops lat lng = Inr ll \<and> unat ident < length (rm_data st')
     \<and> rm_data st' ! unat ident = ll"
proof -
  from run obtain s1 s2 where 1: "RawMem_AddPoint_all ops st earlier = Inr s1"
    and 2: "RawMem_AddPoint ops s1 ident lat lng = Inr s2"
    and 3: "RawMem_AddPoint_all ops s2 after = Inr st'"
    by (auto simp: RawMem_AddPoint_all_append split: sum.splits)
  have "unat ident < length (rm_data s1)"
    using RawMem_AddPoint_all_keeps [OF 1] inside by simp
  from RawMem_AddPoint_stores [OF 2 this] obtain ll where ll: "encode_point ops lat lng = Inr ll"
    "unat ident < length (rm_data s2)" "rm_data s2 ! unat ident = ll" by blast
  have "unat ident \<notin> unat ` fst ` set after"
  proof
    assume "unat ident \<in> unat ` fst ` set after"
    then obtain p where p: "p \<in> set after" "unat ident = unat (fst p)" by auto
    then have "ident = fst p" by (simp add: word_unat_eq_iff)
    then show False using last p(1) by auto
  qed
  then have "rm_data st' ! unat ident = rm_data s2 ! unat ident"
    by (rule RawMem_AddPoint_all_other [OF 3])
  moreover have "length (rm_data st') = length (rm_data s2)"
    using RawMem_AddPoint_all_keeps [OF 3] by simp
  ultimately show ?thesis using ll by auto
qed

lemma RawFile_last_write:
  assumes img: "fw_data (rf_file st) = concat (map LatLon_bytes arr)"
    and run: "RawFile_AddPoint_all ops st (earlier @ (ident, lat, lng) # after) = Inr st'"
    and last: "\<forall>q\<in>set after. unat (fst q * 8) \<noteq> unat (ident * 8)"
  shows "\<exists>arr' j ll. fw_data (rf_file st') = concat (map LatLon_bytes arr')
     \<and> unat (ident * 8) = 8 * j \<and> j < length arr'
     \<and> encode_point ops lat lng = Inr ll \<and> arr' ! j = ll"
proof -
  from run obtain s1 s2 where 1: "RawFile_AddPoint_all ops st earlier = Inr s1"
    and 2: "RawFile_AddPoint ops s1 ident lat lng = Inr s2"
    and 3: "RawFile_AddPoint_all ops s2 after = Inr st'"
    by (auto simp: RawFile_AddPoint_all_append split: sum.splits)
  from RawFile_AddPoint_all_slots [OF img 1] obtain arr1 where
    a1: "fw_data (rf_file s1) = concat (map LatLon_bytes arr1)" by blast
  obtain j where j: "unat (ident * 8) = 8 * j" using offset_aligned by blast
  from RawFile_AddPoint_slots [OF a1 2] obtain arr2 where
    a2: "fw_data (rf_file s2) = concat (map LatLon_bytes arr2)"
    and at: "\<And>i. 8 * i = unat (ident * 8) \<Longrightarrow> i < length arr2 \<and> encode_point ops lat lng = Inr (arr2 ! i)"
    by blast
  have j2: "j < length arr2" "encode_point ops lat lng = Inr (arr2 ! j)" using at [of j] j by simp_all
  from RawFile_AddPoint_all_slots [OF a2 3] obtain arr' where
    a': "fw_data (rf_file st') = concat (map LatLon_bytes arr')" "length arr2 \<le> length arr'"
    and o: "\<And>i. i < length arr' \<Longrightarrow> (\<forall>p\<in>set after. 8 * i \<noteq> unat (fst p * 8)) \<Longrightarrow>
           arr' ! i = (if i < length arr2 then arr2 ! i else \<lparr>ll_lat = 0, ll_lon = 0\<rparr>)"
    by blast
  have jl: "j < length arr'" using j2(1) a'(2) by simp
  have "\<forall>p\<in>set after. 8 * j \<noteq> unat (fst p * 8)" using last j by auto
  then have "arr' ! j = arr2 ! j" using o [OF jl] j2(1) by simp
  then show ?thesis using a'(1) j jl j2(2) by auto
qed

text \<open>
  Claim C9. When \<open>AddPoint\<close> was called several times with one id in a write pass of
  \<open>MapFilePointStorage\<close> that returned (the file shorter than \<open>2^64\<close> bytes), the
  read-mode instance built from the file is constructed, its map holds for that id the
  record of the earliest such call, and \<open>GetPoint\<close> answers with the coordinates decoded
  from it: \<open>emplace\<close> keeps the first record of an id. The dense storages, run over
  the same list of points, answer with the record of the latest call with that id (the
  memory storage for an id inside its array, the raw file storage for ids below
  \<open>2^61\<close>).
\<close>

theorem MapFile_first_record_wins:
  assumes first: "pts = before @ (ident, lat1, lng1) # later" "ident \<notin> fst ` set before"
    and last: "pts = earlier @ (ident, lat2, lng2) # after" "ident \<notin> fst ` set after"
    and run: "MapFile_AddPoint_all ops (MapFile_Write_open name) pts = Inr w"
    and big: "length (fw_data (mf_file w)) < 2 ^ 64"
  shows "(\<exists>r ll. MapFile_reopen w = Inr r \<and> encode_point ops lat1 lng1 = Inr ll
            \<and> m_map r ident = Some (ll_lat ll, ll_lon ll)
            \<and> MapFile_GetPoint ops r ident
                 = Some (d_div ops (d_of_int32 ops (ll_lat ll)) (kValueOrder ops),
                         d_div ops (d_of_int32 ops (ll_lon ll)) (kValueOrder ops)))
    \<and> (\<forall>wmem. RawMem_AddPoint_all ops (RawMem_Write_open name) pts = Inr wmem
            \<and> unat ident < 2 ^ 32 - 1 \<longrightarrow>
          (\<exists>r ll. RawMem_reopen wmem = Inr r \<and> encode_point ops lat2 lng2 = Inr ll
             \<and> RawMem_GetPoint ops r ident = Inr (decode_point ops ident ll)))
    \<and> (\<forall>wfile. RawFile_AddPoint_all ops (RawFile_Write_open name) pts = Inr wfile
            \<and> (\<forall>p\<in>set pts. unat (fst p) < 2 ^ 61) \<longrightarrow>
          (\<exists>ll. encode_point ops lat2 lng2 = Inr ll
             \<and> RawFile_GetPoint ops (RawFile_reopen wfile) ident = Inr (decode_point ops ident ll)))"
proof (intro conjI allI impI)
  from MapFile_reopen_written [OF run big] obtain recs :: "LatLonPos list" and r where
    ro: "MapFile_reopen w = Inr r"
    and a: "list_all2 (\<lambda>p r. llp_pos r = fst p
          \<and> encode_point ops (fst (snd p)) (snd (snd p)) = Inr \<lparr>ll_lat = llp_lat r, ll_lon = llp_lon r\<rparr>)
          pts recs"
    and m: "\<And>ident. m_map r ident = (case find (\<lambda>r. llp_pos r = ident) recs of
                   None \<Rightarrow> None | Some r \<Rightarrow> Some (llp_lat r, llp_lon r))"
    by blast
  from find_first_record [OF a [unfolded first(1)] first(2)] obtain rec where
    f: "find (\<lambda>r. llp_pos r = ident) recs = Some rec"
    and e: "encode_point ops lat1 lng1 = Inr \<lparr>ll_lat = llp_lat rec, ll_lon = llp_lon rec\<rparr>"
    by auto
  have mm: "m_map r ident = Some (llp_lat rec, llp_lon rec)" by (simp add: m f)
  show "\<exists>r ll. MapFile_reopen w = Inr r \<and> encode_point ops lat1 lng1 = Inr ll
            \<and> m_map r ident = Some (ll_lat ll, ll_lon ll)
            \<and> MapFile_GetPoint ops r ident
                 = Some (d_div ops (d_of_int32 ops (ll_lat ll)) (kValueOrder ops),
                         d_div ops (d_of_int32 ops (ll_lon ll)) (kValueOrder ops))"
    by (rule exI [of _ r], rule exI [of _ "\<lparr>ll_lat = llp_lat rec, ll_lon = llp_lon rec\<rparr>"])
      (simp add: ro e mm MapFile_GetPoint_def)
next
  fix wmem
  assume h: "RawMem_AddPoint_all ops (RawMem_Write_open name) pts = Inr wmem
            \<and> unat ident < 2 ^ 32 - 1"
  then have rm: "RawMem_AddPoint_all ops (RawMem_Write_open name) pts = Inr wmem"
    and inside: "unat ident < length (rm_data (RawMem_Write_open name))"
    by (simp_all add: length_RawMem_Write_open kArraySize_def)
  from RawMem_last_write [OF rm [unfolded last(1)] last(2) inside] obtain ll where
    ll: "encode_point ops lat2 lng2 = Inr ll" "unat ident < length (rm_data wmem)"
      "rm_data wmem ! unat ident = ll" by blast
  have k: "length (rm_data wmem) = kArraySize" and f: "rm_file wmem = FileWriter_open"
    using RawMem_AddPoint_all_keeps [OF rm]
    by (simp_all add: length_RawMem_Write_open) (simp add: RawMem_Write_open_def)
  define r where "r = \<lparr>m_processedPoint = 0,
          rm_file = FileReader_open (concat (map LatLon_bytes (rm_data wmem))),
          rm_data = rm_data wmem\<rparr>"
  have ro: "RawMem_reopen wmem = Inr r" unfolding r_def by (rule RawMem_reopen_written [OF k f])
  have g: "RawMem_GetPoint ops r ident = Inr (decode_point ops ident ll)"
    using ll by (simp add: RawMem_GetPoint_def r_def)
  show "\<exists>r ll. RawMem_reopen wmem = Inr r \<and> encode_point ops lat2 lng2 = Inr ll
             \<and> RawMem_GetPoint ops r ident = Inr (decode_point ops ident ll)"
    using ro ll(1) g by blast
next
  fix wfile
  assume h: "RawFile_AddPoint_all ops (RawFile_Write_open name) pts = Inr wfile
            \<and> (\<forall>p\<in>set pts. unat (fst p) < 2 ^ 61)"
  have i0: "fw_data (rf_file (RawFile_Write_open name)) = concat (map LatLon_bytes [])"
    by (simp add: RawFile_Write_open_def FileWriter_open_def)
  have idl: "unat ident < 2 ^ 61" using h by (simp add: last(1))
  have "\<forall>q\<in>set after. unat (fst q * 8) \<noteq> unat (ident * 8)"
  proof
    fix q assume q: "q \<in> set after"
    then have "unat (fst q) < 2 ^ 61" using h by (simp add: last(1))
    then have "unat (fst q * 8) = 8 * unat (fst q)" by (rule offset_small)
    moreover have "unat (fst q) \<noteq> unat ident"
    proof
      assume "unat (fst q) = unat ident"
      then have "fst q = ident" by (simp add: word_unat_eq_iff)
      then show False using q last(2) by auto
    qed
    ultimately show "unat (fst q * 8) \<noteq> unat (ident * 8)" using offset_small [OF idl] by simp
  qed
  from RawFile_last_write [OF i0 h [THEN conjunct1, unfolded last(1)] this] obtain arr j ll where
    d: "fw_data (rf_file wfile) = concat (map LatLon_bytes arr)"
    and j: "unat (ident * 8) = 8 * j" "j < length arr"
    and e: "encode_point ops lat2 lng2 = Inr ll" "arr ! j = ll"
    by blast
  have rd: "fr_data (rf_file (RawFile_reopen wfile)) = concat (map LatLon_bytes arr)"
    by (simp add: RawFile_reopen_def RawFile_Read_open_def FileReader_open_def d)
  show "\<exists>ll. encode_point ops lat2 lng2 = Inr ll
             \<and> RawFile_GetPoint ops (RawFile_reopen wfile) ident = Inr (decode_point ops ident ll)"
    using RawFile_GetPoint_image [OF rd j, of ops] e by auto
qed

lemma encode_exact_small:
  "encode_point exact_ops 1 2 = Inr \<lparr>ll_lat = 10000000, ll_lon = 20000000\<rparr>"
  "encode_point exact_ops 3 4 = Inr \<lparr>ll_lat = 30000000, ll_lon = 40000000\<rparr>"
  "encode_point exact_ops 5 6 = Inr \<lparr>ll_lat = 50000000, ll_lon = 60000000\<rparr>"
  using scaled_exact_whole [of 1] scaled_exact_whole [of 2] scaled_exact_whole [of 3]
    scaled_exact_whole [of 4] scaled_exact_whole [of 5] scaled_exact_whole [of 6]
  by (simp_all add: encode_point_cases in_int32_def)

theorem MapFile_first_record_wins_witness:
  "\<exists>w r wmem rm wfile.
      MapFile_AddPoint_all exact_ops (MapFile_Write_open ''nodes'') [(7, 1, 2), (9, 3, 4), (7, 5, 6)] = Inr w
    \<and> MapFile_reopen w = Inr r
    \<and> MapFile_GetPoint exact_ops r 7 = Some (1, 2)
    \<and> RawMem_AddPoint_all exact_ops (RawMem_Write_open ''nodes'') [(7, 1, 2), (9, 3, 4), (7, 5, 6)] = Inr wmem
    \<and> RawMem_reopen wmem = Inr rm
    \<and> RawMem_GetPoint exact_ops rm 7 = Inr (Some (5, 6), [])
    \<and> RawFile_AddPoint_all exact_ops (RawFile_Write_open ''nodes'') [(7, 1, 2), (9, 3, 4), (7, 5, 6)] = Inr wfile
    \<and> RawFile_GetPoint exact_ops (RawFile_reopen wfile) 7 = Inr (Some (5, 6), [])"
proof -
  let ?pts = "[(7, 1, 2), (9, 3, 4), (7, 5, 6)] :: (u64 \<times> real \<times> real) list"
  have first: "?pts = [] @ (7, 1, 2) # [(9, 3, 4), (7, 5, 6)]" "(7 :: u64) \<notin> fst ` set ([] :: (u64 \<times> real \<times> real) list)"
    and last: "?pts = [(7, 1, 2), (9, 3, 4)] @ (7, 5, 6) # []" "(7 :: u64) \<notin> fst ` set ([] :: (u64 \<times> real \<times> real) list)"
    by simp_all
  obtain w where w: "MapFile_AddPoint_all exact_ops (MapFile_Write_open ''nodes'') ?pts = Inr w"
    by (simp add: MapFile_AddPoint_def encode_exact_small)
  have p: "fw_pos (mf_file (MapFile_Write_open ''nodes'')) = length (fw_data (mf_file (MapFile_Write_open ''nodes'')))"
    by (simp add: MapFile_Write_open_def FileWriter_open_def)
  from MapFile_AddPoint_all_image [OF p w] obtain recs where
    d: "fw_data (mf_file w) = fw_data (mf_file (MapFile_Write_open ''nodes'')) @ concat (map LatLonPos_bytes recs)"
    and a: "list_all2 (\<lambda>p r. llp_pos r = fst p
          \<and> encode_point exact_ops (fst (snd p)) (snd (snd p)) = Inr \<lparr>ll_lat = llp_lat r, ll_lon = llp_lon r\<rparr>)
          ?pts recs"
    by blast
  have "length recs = 3" using list_all2_lengthD [OF a] by simp
  then have big: "length (fw_data (mf_file w)) < 2 ^ 64"
    by (simp add: d MapFile_Write_open_def FileWriter_open_def length_LatLonPos_image)
  note t = MapFile_first_record_wins [OF first last w big]
  from t [THEN conjunct1] obtain r ll where r: "MapFile_reopen w = Inr r"
    and e: "encode_point exact_ops 1 2 = Inr ll"
    and g: "MapFile_GetPoint exact_ops r 7
                 = Some (d_div exact_ops (d_of_int32 exact_ops (ll_lat ll)) (kValueOrder exact_ops),
                         d_div exact_ops (d_of_int32 exact_ops (ll_lon ll)) (kValueOrder exact_ops))"
    by blast
  have ll: "ll = \<lparr>ll_lat = 10000000, ll_lon = 20000000\<rparr>" using e by (simp add: encode_exact_small)
  have g': "MapFile_GetPoint exact_ops r 7 = Some (1, 2)"
    unfolding g ll by (simp add: exact_ops_def)
  obtain s1 where s1: "RawMem_AddPoint exact_ops (RawMem_Write_open ''nodes'') 7 1 2 = Inr s1"
    by (simp add: RawMem_AddPoint_eq encode_exact_small)
  obtain s2 where s2: "RawMem_AddPoint exact_ops s1 9 3 4 = Inr s2"
    by (simp add: RawMem_AddPoint_eq encode_exact_small)
  obtain s3 where s3: "RawMem_AddPoint exact_ops s2 7 5 6 = Inr s3"
    by (simp add: RawMem_AddPoint_eq encode_exact_small)
  have wm: "RawMem_AddPoint_all exact_ops (RawMem_Write_open ''nodes'') ?pts = Inr s3
      \<and> unat (7 :: u64) < 2 ^ 32 - 1"
    by (simp add: s1 s2 s3)
  from t [THEN conjunct2, THEN conjunct1, rule_format, OF wm] obtain rm ll2 where
    rm: "RawMem_reopen s3 = Inr rm" and e2: "encode_point exact_ops 5 6 = Inr ll2"
    and g2: "RawMem_GetPoint exact_ops rm 7 = Inr (decode_point exact_ops 7 ll2)"
    by blast
  have ll2: "ll2 = \<lparr>ll_lat = 50000000, ll_lon = 60000000\<rparr>" using e2 by (simp add: encode_exact_small)
  have g2': "RawMem_GetPoint exact_ops rm 7 = Inr (Some (5, 6), [])"
    unfolding g2 ll2 by (simp add: decode_point_def exact_ops_def)
  obtain f1 where f1: "RawFile_AddPoint exact_ops (RawFile_Write_open ''nodes'') 7 1 2 = Inr f1"
    by (simp add: RawFile_AddPoint_eq encode_exact_small)
  obtain f2 where f2: "RawFile_AddPoint exact_ops f1 9 3 4 = Inr f2"
    by (simp add: RawFile_AddPoint_eq encode_exact_small)
  obtain f3 where f3: "RawFile_AddPoint exact_ops f2 7 5 6 = Inr f3"
    by (simp add: RawFile_AddPoint_eq encode_exact_small)
  have wf3: "RawFile_AddPoint_all exact_ops (RawFile_Write_open ''nodes'') ?pts = Inr f3
      \<and> (\<forall>p\<in>set ?pts. unat (fst p) < 2 ^ 61)"
    by (simp add: f1 f2 f3)
  from t [THEN conjunct2, THEN conjunct2, rule_format, OF wf3] obtain ll3 where
    e3: "encode_point exact_ops 5 6 = Inr ll3"
    and g3: "RawFile_GetPoint exact_ops (RawFile_reopen f3) 7 = Inr (decode_point exact_ops 7 ll3)"
    by blast
  have ll3: "ll3 = \<lparr>ll_lat = 50000000, ll_lon = 60000000\<rparr>" using e3 by (simp add: encode_exact_small)
  have g3': "RawFile_GetPoint exact_ops (RawFile_reopen f3) 7 = Inr (Some (5, 6), [])"
    unfolding g3 ll3 by (simp add: decode_point_def exact_ops_def)
  show ?thesis using w r g' wm rm g2' wf3 g3' by blast
qed

end
